theory Spec2Isabelle
  imports Main "HOL-Library.Monad_Syntax"
begin

section \<open>The heap of an ordered map\<close>

text \<open>
  The Go package couples a built-in map with a \<^verbatim>\<open>container/list\<close> list. Both hold
  pointers to the same list elements, and every list element points to an \<^verbatim>\<open>ElemVal\<close>;
  the claims depend on this aliasing, so the model keeps an explicit store. A pointer
  is an address, \<open>None\<close> is Go's \<^verbatim>\<open>nil\<close>, and dereferencing \<^verbatim>\<open>nil\<close> (a panic in Go)
  makes an operation return \<open>None\<close>.

  A value of type \<^verbatim>\<open>interface{}\<close> is \<open>'v option\<close>, with \<open>None\<close> the nil interface.
\<close>

type_synonym addr = nat

type_synonym 'v iface = "'v option"

text \<open>
  \<^verbatim>\<open>list.Element\<close> of the standard library: \<^verbatim>\<open>next, prev *Element; list *List; Value any\<close>.
  The \<^verbatim>\<open>Value\<close> of an element of the map's list is always a \<^verbatim>\<open>*ElemVal\<close>, so the field
  is a pointer into the store of \<^verbatim>\<open>ElemVal\<close>s. A \<^verbatim>\<open>*List\<close> is identified with the address
  of the list's sentinel \<^verbatim>\<open>root\<close>, which is embedded in the \<^verbatim>\<open>List\<close> struct.
\<close>

record list_Element =
  e_next :: "addr option"
  e_prev :: "addr option"
  e_list :: "addr option"
  e_Value :: "addr option"

text \<open>\<^verbatim>\<open>type ElemVal struct { Key string; Value interface{} }\<close>\<close>

record 'v ElemVal =
  Key :: string
  Value :: "'v iface"

text \<open>
  \<^verbatim>\<open>type OrderedMap struct { mapper map[string]*list.Element; lister *list.List }\<close>
  together with the objects it reaches: \<open>lister\<close> is the address of the list's root
  element, \<open>lister_len\<close> the list's \<^verbatim>\<open>len\<close> field, \<open>elements\<close> the store of list elements
  and \<open>elemvals\<close> the store of \<^verbatim>\<open>ElemVal\<close>s. \<open>brk\<close> is the allocator's next unused
  address: a Go allocation returns an object distinct from every live one.

  \<^verbatim>\<open>len\<close> is a Go \<^verbatim>\<open>int\<close> (64 bits); it counts live list elements, each of which occupies
  memory, so it cannot reach \<open>2^63\<close> and is modelled as an unbounded integer.
\<close>

record 'v OrderedMap =
  mapper :: "string \<rightharpoonup> addr"
  lister :: addr
  lister_len :: int
  elements :: "addr \<rightharpoonup> list_Element"
  elemvals :: "addr \<rightharpoonup> 'v ElemVal"
  brk :: addr

text \<open>
  \<^verbatim>\<open>type Element struct { elem *list.Element; *ElemVal }\<close>: the cursor handed out by
  \<^verbatim>\<open>First\<close> and \<^verbatim>\<open>Next\<close>. The embedded \<^verbatim>\<open>*ElemVal\<close> is the field \<open>ElemValp\<close>.
\<close>

record Element =
  elem :: "addr option"
  ElemValp :: addr

subsection \<open>Reading and writing list elements\<close>

text \<open>\<open>load s p\<close> reads \<^verbatim>\<open>*p\<close>; \<open>store p f s\<close> writes \<open>f\<close> of the old contents to \<^verbatim>\<open>*p\<close>.\<close>

definition load :: "'v OrderedMap \<Rightarrow> addr option \<Rightarrow> list_Element option" where
  "load s p = (case p of None \<Rightarrow> None | Some a \<Rightarrow> elements s a)"

definition store ::
  "addr option \<Rightarrow> (list_Element \<Rightarrow> list_Element) \<Rightarrow> 'v OrderedMap \<Rightarrow> 'v OrderedMap option" where
  "store p f s =
     (case p of
        None \<Rightarrow> None
      | Some a \<Rightarrow>
          (case elements s a of
             None \<Rightarrow> None
           | Some n \<Rightarrow> Some (s\<lparr>elements := (elements s)(a \<mapsto> f n)\<rparr>)))"

section \<open>container/list\<close>

text \<open>
  The functions of Go's \<^verbatim>\<open>container/list\<close> that the package calls, on the map's own list.

  \<^verbatim>\<open>func (l *List) Init() *List { l.root.next = &l.root; l.root.prev = &l.root; l.len = 0; return l }\<close>
\<close>

definition list_Init :: "'v OrderedMap \<Rightarrow> 'v OrderedMap option" where
  "list_Init s = do {
     s1 \<leftarrow> store (Some (lister s)) (\<lambda>n. n\<lparr>e_next := Some (lister s)\<rparr>) s;
     s2 \<leftarrow> store (Some (lister s)) (\<lambda>n. n\<lparr>e_prev := Some (lister s)\<rparr>) s1;
     Some (s2\<lparr>lister_len := 0\<rparr>)
   }"

text \<open>\<^verbatim>\<open>func (l *List) lazyInit() { if l.root.next == nil { l.Init() } }\<close>\<close>

definition list_lazyInit :: "'v OrderedMap \<Rightarrow> 'v OrderedMap option" where
  "list_lazyInit s = do {
     r \<leftarrow> load s (Some (lister s));
     if e_next r = None then list_Init s else Some s
   }"

text \<open>
  \<^verbatim>\<open>func (l *List) insert(e, at *Element) *Element {
    e.prev = at; e.next = at.next; e.prev.next = e; e.next.prev = e; e.list = l; l.len++; return e }\<close>
\<close>

definition list_insert :: "addr \<Rightarrow> addr option \<Rightarrow> 'v OrderedMap \<Rightarrow> 'v OrderedMap option" where
  "list_insert e at s = do {
     s1 \<leftarrow> store (Some e) (\<lambda>n. n\<lparr>e_prev := at\<rparr>) s;
     a \<leftarrow> load s1 at;
     s2 \<leftarrow> store (Some e) (\<lambda>n. n\<lparr>e_next := e_next a\<rparr>) s1;
     n2 \<leftarrow> load s2 (Some e);
     s3 \<leftarrow> store (e_prev n2) (\<lambda>n. n\<lparr>e_next := Some e\<rparr>) s2;
     n3 \<leftarrow> load s3 (Some e);
     s4 \<leftarrow> store (e_next n3) (\<lambda>n. n\<lparr>e_prev := Some e\<rparr>) s3;
     s5 \<leftarrow> store (Some e) (\<lambda>n. n\<lparr>e_list := Some (lister s)\<rparr>) s4;
     Some (s5\<lparr>lister_len := lister_len s5 + 1\<rparr>)
   }"

text \<open>
  \<^verbatim>\<open>func (l *List) insertValue(v any, at *Element) *Element { return l.insert(&Element{Value: v}, at) }\<close>
  The new element is allocated at \<open>brk\<close> with its other fields zero (\<^verbatim>\<open>nil\<close>).
\<close>

definition list_insertValue ::
  "addr option \<Rightarrow> addr option \<Rightarrow> 'v OrderedMap \<Rightarrow> (addr \<times> 'v OrderedMap) option" where
  "list_insertValue v at s = do {
     let e = brk s;
     let s1 = s\<lparr>elements := (elements s)(e \<mapsto>
                  \<lparr>e_next = None, e_prev = None, e_list = None, e_Value = v\<rparr>),
                brk := Suc e\<rparr>;
     s2 \<leftarrow> list_insert e at s1;
     Some (e, s2)
   }"

text \<open>
  \<^verbatim>\<open>func (l *List) PushBack(v any) *Element { l.lazyInit(); return l.insertValue(v, l.root.prev) }\<close>
\<close>

definition list_PushBack :: "addr option \<Rightarrow> 'v OrderedMap \<Rightarrow> (addr \<times> 'v OrderedMap) option" where
  "list_PushBack v s = do {
     s1 \<leftarrow> list_lazyInit s;
     r \<leftarrow> load s1 (Some (lister s1));
     list_insertValue v (e_prev r) s1
   }"

text \<open>
  \<^verbatim>\<open>func (l *List) remove(e *Element) {
    e.prev.next = e.next; e.next.prev = e.prev; e.next = nil; e.prev = nil; e.list = nil; l.len-- }\<close>
\<close>

definition list_remove :: "addr \<Rightarrow> 'v OrderedMap \<Rightarrow> 'v OrderedMap option" where
  "list_remove e s = do {
     n \<leftarrow> load s (Some e);
     s1 \<leftarrow> store (e_prev n) (\<lambda>x. x\<lparr>e_next := e_next n\<rparr>) s;
     n1 \<leftarrow> load s1 (Some e);
     s2 \<leftarrow> store (e_next n1) (\<lambda>x. x\<lparr>e_prev := e_prev n1\<rparr>) s1;
     s3 \<leftarrow> store (Some e) (\<lambda>x. x\<lparr>e_next := None\<rparr>) s2;
     s4 \<leftarrow> store (Some e) (\<lambda>x. x\<lparr>e_prev := None\<rparr>) s3;
     s5 \<leftarrow> store (Some e) (\<lambda>x. x\<lparr>e_list := None\<rparr>) s4;
     Some (s5\<lparr>lister_len := lister_len s5 - 1\<rparr>)
   }"

text \<open>
  \<^verbatim>\<open>func (l *List) Remove(e *Element) any { if e.list == l { l.remove(e) }; return e.Value }\<close>
  The package ignores the returned value.
\<close>

definition list_Remove :: "addr \<Rightarrow> 'v OrderedMap \<Rightarrow> 'v OrderedMap option" where
  "list_Remove e s = do {
     n \<leftarrow> load s (Some e);
     if e_list n = Some (lister s) then list_remove e s else Some s
   }"

text \<open>\<^verbatim>\<open>func (l *List) Len() int { return l.len }\<close>\<close>

definition list_Len :: "'v OrderedMap \<Rightarrow> int" where
  "list_Len s = lister_len s"

text \<open>
  \<^verbatim>\<open>func (l *List) Front() *Element { if l.len == 0 { return nil }; return l.root.next }\<close>
\<close>

definition list_Front :: "'v OrderedMap \<Rightarrow> addr option option" where
  "list_Front s =
     (if lister_len s = 0 then Some None
      else do { r \<leftarrow> load s (Some (lister s)); Some (e_next r) })"

text \<open>
  \<^verbatim>\<open>func (e *Element) Next() *Element {
    if p := e.next; e.list != nil && p != &e.list.root { return p }; return nil }\<close>
\<close>

definition list_Next :: "addr option \<Rightarrow> 'v OrderedMap \<Rightarrow> addr option option" where
  "list_Next e s = do {
     n \<leftarrow> load s e;
     (case e_list n of
        None \<Rightarrow> Some None
      | Some l \<Rightarrow> if e_next n \<noteq> Some l then Some (e_next n) else Some None)
   }"

section \<open>The package orderedmap\<close>

text \<open>
  \<open>New\<close>: an empty built-in map and \<^verbatim>\<open>list.New()\<close>, that is \<^verbatim>\<open>new(List).Init()\<close>: the root
  element is allocated at address 0 and linked to itself.
\<close>

definition New :: "'v OrderedMap" where
  "New = \<lparr>mapper = Map.empty, lister = 0, lister_len = 0,
          elements = [0 \<mapsto> \<lparr>e_next = Some 0, e_prev = Some 0, e_list = None, e_Value = None\<rparr>],
          elemvals = Map.empty, brk = 1\<rparr>"

text \<open>
  \<open>deref_ElemVal s n\<close> is \<^verbatim>\<open>n.Value.(*ElemVal)\<close> followed by a read of the \<^verbatim>\<open>ElemVal\<close>: the type
  assertion panics on a nil interface. It returns the pointer and the struct.
\<close>

definition deref_ElemVal :: "'v OrderedMap \<Rightarrow> list_Element \<Rightarrow> (addr \<times> 'v ElemVal) option" where
  "deref_ElemVal s n = do {
     p \<leftarrow> e_Value n;
     ev \<leftarrow> elemvals s p;
     Some (p, ev)
   }"

text \<open>
  \<open>new_ElemVal ev s\<close> is the allocation \<^verbatim>\<open>&ElemVal{...}\<close>: the struct \<open>ev\<close> is placed at
  \<open>brk\<close>, and its address returned.
\<close>

definition new_ElemVal :: "'v ElemVal \<Rightarrow> 'v OrderedMap \<Rightarrow> addr \<times> 'v OrderedMap" where
  "new_ElemVal ev s = (brk s, s\<lparr>elemvals := (elemvals s)(brk s \<mapsto> ev), brk := Suc (brk s)\<rparr>)"

text \<open>\<open>Set\<close> (orderedmap.go, lines 58 to 66).\<close>

definition Set :: "string \<Rightarrow> 'v iface \<Rightarrow> 'v OrderedMap \<Rightarrow> 'v OrderedMap option" where
  "Set key val s =
     (case mapper s key of
        None \<Rightarrow> do {
          let (p, s1) = new_ElemVal \<lparr>Key = key, Value = val\<rparr> s;
          (e, s2) \<leftarrow> list_PushBack (Some p) s1;
          Some (s2\<lparr>mapper := (mapper s2)(key \<mapsto> e)\<rparr>)
        }
      | Some e \<Rightarrow> do {
          n \<leftarrow> load s (Some e);
          (p, ev) \<leftarrow> deref_ElemVal s n;
          Some (s\<lparr>elemvals := (elemvals s)(p \<mapsto> ev\<lparr>Value := val\<rparr>)\<rparr>)
        })"

text \<open>\<open>Get\<close> (lines 70 to 76): the pair \<^verbatim>\<open>(value, exist)\<close>.\<close>

definition Get :: "string \<Rightarrow> 'v OrderedMap \<Rightarrow> ('v iface \<times> bool) option" where
  "Get key s =
     (case mapper s key of
        None \<Rightarrow> Some (None, False)
      | Some e \<Rightarrow> do {
          n \<leftarrow> load s (Some e);
          (p, ev) \<leftarrow> deref_ElemVal s n;
          Some (Value ev, True)
        })"

text \<open>\<open>Delete\<close> (lines 79 to 87).\<close>

definition Delete :: "string \<Rightarrow> 'v OrderedMap \<Rightarrow> 'v OrderedMap option" where
  "Delete key s =
     (case mapper s key of
        None \<Rightarrow> Some s
      | Some e \<Rightarrow> do {
          s1 \<leftarrow> list_Remove e s;
          Some (s1\<lparr>mapper := (mapper s1)(key := None)\<rparr>)
        })"

text \<open>\<open>Len\<close> (line 91).\<close>

definition Len :: "'v OrderedMap \<Rightarrow> int" where
  "Len s = list_Len s"

text \<open>
  \<open>mk_Element\<close> is the composite literal shared by \<open>First\<close> and \<open>Next\<close>:
  \<^verbatim>\<open>&Element{elem: x, ElemVal: &ElemVal{Key: x.Value.(*ElemVal).Key, Value: x.Value.(*ElemVal).Value}}\<close>.
\<close>

definition mk_Element :: "addr \<Rightarrow> 'v OrderedMap \<Rightarrow> (Element \<times> 'v OrderedMap) option" where
  "mk_Element x s = do {
     n \<leftarrow> load s (Some x);
     (p, ev) \<leftarrow> deref_ElemVal s n;
     let (q, s1) = new_ElemVal \<lparr>Key = Key ev, Value = Value ev\<rparr> s;
     Some (\<lparr>elem = Some x, ElemValp = q\<rparr>, s1)
   }"

text \<open>\<open>First\<close> (lines 120 to 134); \<open>None\<close> inside \<open>Some\<close> is the result \<^verbatim>\<open>nil\<close>.\<close>

definition First :: "'v OrderedMap \<Rightarrow> (Element option \<times> 'v OrderedMap) option" where
  "First s = do {
     front \<leftarrow> list_Front s;
     (case front of
        None \<Rightarrow> Some (None, s)
      | Some x \<Rightarrow> do { (e, s1) \<leftarrow> mk_Element x s; Some (Some e, s1) })
   }"

text \<open>\<open>Next\<close> (lines 137 to 151).\<close>

definition Next :: "Element \<Rightarrow> 'v OrderedMap \<Rightarrow> (Element option \<times> 'v OrderedMap) option" where
  "Next e s = do {
     nx \<leftarrow> list_Next (elem e) s;
     (case nx of
        None \<Rightarrow> Some (None, s)
      | Some x \<Rightarrow> do { (e', s1) \<leftarrow> mk_Element x s; Some (Some e', s1) })
   }"

section \<open>Client loops\<close>

text \<open>
  The traversal of the package documentation,
  \<^verbatim>\<open>for e := m.First(); e != nil; e = e.Next() { key := e.Key; value := e.Value; ... }\<close>.
  \<open>walk\<close> is the loop from a given cursor: it reads the cursor's \<^verbatim>\<open>Key\<close> and \<^verbatim>\<open>Value\<close> fields,
  then steps with \<open>Next\<close>. The list is a structure in the heap, so the loop is bounded
  by fuel: it returns \<open>None\<close> when the fuel runs out before the cursor is \<^verbatim>\<open>nil\<close>
  (and when a step panics).
\<close>

fun walk ::
  "nat \<Rightarrow> Element option \<Rightarrow> 'v OrderedMap \<Rightarrow> ((string \<times> 'v iface) list \<times> 'v OrderedMap) option" where
  "walk fuel None s = Some ([], s)"
| "walk 0 (Some e) s = None"
| "walk (Suc fuel) (Some e) s = do {
     ev \<leftarrow> elemvals s (ElemValp e);
     (nx, s1) \<leftarrow> Next e s;
     (rest, s2) \<leftarrow> walk fuel nx s1;
     Some ((Key ev, Value ev) # rest, s2)
   }"

definition iterate ::
  "nat \<Rightarrow> 'v OrderedMap \<Rightarrow> ((string \<times> 'v iface) list \<times> 'v OrderedMap) option" where
  "iterate fuel s = do { (e, s1) \<leftarrow> First s; walk fuel e s1 }"

text \<open>
  \<open>cursor_at i s\<close>: the cursor after \<open>First\<close> and \<open>i\<close> steps of \<open>Next\<close> (the loop above,
  stopped before its \<open>i\<close>-th body); \<^verbatim>\<open>nil\<close> once the loop has ended.
\<close>

fun cursor_at :: "nat \<Rightarrow> 'v OrderedMap \<Rightarrow> (Element option \<times> 'v OrderedMap) option" where
  "cursor_at 0 s = First s"
| "cursor_at (Suc i) s = do {
     (c, s1) \<leftarrow> cursor_at i s;
     (case c of None \<Rightarrow> Some (None, s1) | Some e \<Rightarrow> Next e s1)
   }"

text \<open>
  A client's assignment \<^verbatim>\<open>e.Value = x\<close> to a cursor: a write through the cursor's
  \<^verbatim>\<open>*ElemVal\<close>.
\<close>

definition assign_Value :: "Element \<Rightarrow> 'v iface \<Rightarrow> 'v OrderedMap \<Rightarrow> 'v OrderedMap option" where
  "assign_Value e x s = do {
     ev \<leftarrow> elemvals s (ElemValp e);
     Some (s\<lparr>elemvals := (elemvals s)(ElemValp e \<mapsto> ev\<lparr>Value := x\<rparr>)\<rparr>)
   }"

text \<open>
  The use the package documentation warns against: on the map with keys a, b, c, take
  the first cursor, delete its key, and only then call \<open>Next\<close> on it; afterwards
  traverse the map afresh. The result is the cursor's key, what \<open>Next\<close> returned, the
  entries of the fresh traversal, and \<open>Len\<close>.
\<close>

definition delete_then_next ::
  "(string \<times> Element option \<times> (string \<times> nat iface) list \<times> int) option" where
  "delete_then_next = do {
     s \<leftarrow> Set ''a'' (Some 1) New;
     s \<leftarrow> Set ''b'' (Some 2) s;
     s \<leftarrow> Set ''c'' (Some 3) s;
     (c, s) \<leftarrow> First s;
     e \<leftarrow> c;
     ev \<leftarrow> elemvals s (ElemValp e);
     s \<leftarrow> Delete (Key ev) s;
     (nx, s) \<leftarrow> Next e s;
     (out, s') \<leftarrow> iterate 2 s;
     Some (Key ev, nx, out, Len s)
   }"

text \<open>Sequences of calls on one map, run from left to right; a panic ends the run.\<close>

datatype 'v op = OpSet string "'v iface" | OpDelete string | OpFirst | OpNext Element

fun exec :: "'v op \<Rightarrow> 'v OrderedMap \<Rightarrow> 'v OrderedMap option" where
  "exec (OpSet k v) s = Set k v s"
| "exec (OpDelete k) s = Delete k s"
| "exec OpFirst s = map_option snd (First s)"
| "exec (OpNext e) s = map_option snd (Next e s)"

fun run :: "'v op list \<Rightarrow> 'v OrderedMap \<Rightarrow> 'v OrderedMap option" where
  "run [] s = Some s"
| "run (x # xs) s = (case exec x s of None \<Rightarrow> None | Some s1 \<Rightarrow> run xs s1)"

fun is_update :: "'v op \<Rightarrow> bool" where
  "is_update (OpSet k v) = True"
| "is_update (OpDelete k) = True"
| "is_update OpFirst = False"
| "is_update (OpNext e) = False"

section \<open>The container of the specification\<close>

text \<open>
  The specification's reading of the container, for comparison with the code: the
  sequence of entries in insertion order. \<open>spec_Set\<close> appends an absent key at the tail
  and replaces only the value of a present key; \<open>spec_Delete\<close> removes the entry of the
  key; traversal steps change nothing.
\<close>

definition spec_Set :: "string \<Rightarrow> 'v iface \<Rightarrow> (string \<times> 'v iface) list \<Rightarrow> (string \<times> 'v iface) list" where
  "spec_Set k v xs =
     (if k \<in> set (map fst xs) then map (\<lambda>(k', v'). if k' = k then (k', v) else (k', v')) xs
      else xs @ [(k, v)])"

definition spec_Delete :: "string \<Rightarrow> (string \<times> 'v iface) list \<Rightarrow> (string \<times> 'v iface) list" where
  "spec_Delete k xs = filter (\<lambda>(k', v'). k' \<noteq> k) xs"

fun spec_exec :: "'v op \<Rightarrow> (string \<times> 'v iface) list \<Rightarrow> (string \<times> 'v iface) list" where
  "spec_exec (OpSet k v) xs = spec_Set k v xs"
| "spec_exec (OpDelete k) xs = spec_Delete k xs"
| "spec_exec OpFirst xs = xs"
| "spec_exec (OpNext e) xs = xs"

fun spec_run :: "'v op list \<Rightarrow> (string \<times> 'v iface) list \<Rightarrow> (string \<times> 'v iface) list" where
  "spec_run [] xs = xs"
| "spec_run (x # ops) xs = spec_run ops (spec_exec x xs)"

text \<open>
  The keys present after a sequence of calls, as the specification counts them: a \<open>Set\<close>
  makes its key present, a \<open>Delete\<close> makes it absent.
\<close>

fun keys_step :: "'v op \<Rightarrow> string set \<Rightarrow> string set" where
  "keys_step (OpSet k v) K = insert k K"
| "keys_step (OpDelete k) K = K - {k}"
| "keys_step OpFirst K = K"
| "keys_step (OpNext e) K = K"

definition present_keys :: "'v op list \<Rightarrow> string set" where
  "present_keys ops = foldl (\<lambda>K x. keys_step x K) {} ops"

section \<open>The representation invariant\<close>

text \<open>
  \<open>chain h p as q\<close>: in the store \<open>h\<close>, following \<^verbatim>\<open>next\<close> from \<open>p\<close> visits the elements \<open>as\<close>
  and then reaches \<open>q\<close>, and \<^verbatim>\<open>prev\<close> leads back along the same way.
\<close>

definition nxt :: "(addr \<rightharpoonup> list_Element) \<Rightarrow> addr \<Rightarrow> addr option" where
  "nxt h a = (case h a of None \<Rightarrow> None | Some n \<Rightarrow> e_next n)"

definition prv :: "(addr \<rightharpoonup> list_Element) \<Rightarrow> addr \<Rightarrow> addr option" where
  "prv h a = (case h a of None \<Rightarrow> None | Some n \<Rightarrow> e_prev n)"

fun chain :: "(addr \<rightharpoonup> list_Element) \<Rightarrow> addr \<Rightarrow> addr list \<Rightarrow> addr \<Rightarrow> bool" where
  "chain h p [] q = (nxt h p = Some q \<and> prv h q = Some p)"
| "chain h p (a # as) q = (nxt h p = Some a \<and> prv h a = Some p \<and> chain h a as q)"

text \<open>The \<^verbatim>\<open>ElemVal\<close> pointer of the list element at \<open>a\<close>, and the \<^verbatim>\<open>ElemVal\<close> it points to.\<close>

definition valp :: "'v OrderedMap \<Rightarrow> addr \<Rightarrow> addr option" where
  "valp s a = (case elements s a of None \<Rightarrow> None | Some n \<Rightarrow> e_Value n)"

definition entry :: "'v OrderedMap \<Rightarrow> addr \<Rightarrow> 'v ElemVal option" where
  "entry s a = (case valp s a of None \<Rightarrow> None | Some p \<Rightarrow> elemvals s p)"

text \<open>
  \<open>linked s as\<close>: the list of \<open>s\<close> is the ring root, \<open>as\<close>, root of distinct elements that
  belong to the list, \<^verbatim>\<open>len\<close> is their number, and every other element (the root, and
  the elements that were removed) belongs to no list.
\<close>

definition linked :: "'v OrderedMap \<Rightarrow> addr list \<Rightarrow> bool" where
  "linked s as \<longleftrightarrow>
     chain (elements s) (lister s) as (lister s) \<and> distinct as \<and> lister s \<notin> set as \<and>
     lister_len s = int (length as) \<and>
     (\<forall>a \<in> set as. \<exists>n. elements s a = Some n \<and> e_list n = Some (lister s)) \<and>
     (\<forall>a n. elements s a = Some n \<longrightarrow> a \<notin> set as \<longrightarrow> e_list n = None)"

text \<open>
  \<open>in_sync s as\<close>: the index and the sequence agree. Every element of the sequence
  holds an \<^verbatim>\<open>ElemVal\<close> of its own whose key the index maps to that element, and the
  index points nowhere else.
\<close>

definition in_sync :: "'v OrderedMap \<Rightarrow> addr list \<Rightarrow> bool" where
  "in_sync s as \<longleftrightarrow>
     (\<forall>a \<in> set as. \<exists>ev. entry s a = Some ev \<and> mapper s (Key ev) = Some a) \<and>
     (\<forall>k a. mapper s k = Some a \<longrightarrow> a \<in> set as \<and> map_option Key (entry s a) = Some k) \<and>
     inj_on (valp s) (set as)"

text \<open>Nothing is allocated at or above \<open>brk\<close>.\<close>

definition below_brk :: "'v OrderedMap \<Rightarrow> bool" where
  "below_brk s \<longleftrightarrow>
     (\<forall>a. brk s \<le> a \<longrightarrow> elements s a = None) \<and> (\<forall>p. brk s \<le> p \<longrightarrow> elemvals s p = None)"

text \<open>
  \<open>repr s as xs\<close>: the state \<open>s\<close> is well formed with element sequence \<open>as\<close>, and its
  entries, in sequence order, are \<open>xs\<close>.
\<close>

text \<open>
  \<open>off_list s as q\<close>: \<open>q\<close> is the address of an allocated \<^verbatim>\<open>ElemVal\<close> that no element of the
  sequence points to, such as the copy a cursor holds.
\<close>

definition off_list :: "'v OrderedMap \<Rightarrow> addr list \<Rightarrow> addr \<Rightarrow> bool" where
  "off_list s as q \<longleftrightarrow> q < brk s \<and> (\<forall>a \<in> set as. valp s a \<noteq> Some q)"

definition contents :: "'v OrderedMap \<Rightarrow> addr list \<Rightarrow> (string \<times> 'v iface) option list" where
  "contents s as = map (\<lambda>a. map_option (\<lambda>ev. (Key ev, Value ev)) (entry s a)) as"

definition repr :: "'v OrderedMap \<Rightarrow> addr list \<Rightarrow> (string \<times> 'v iface) list \<Rightarrow> bool" where
  "repr s as xs \<longleftrightarrow> linked s as \<and> in_sync s as \<and> below_brk s \<and> contents s as = map Some xs"

section \<open>Lists in the heap\<close>

lemma chain_append:
  "chain h p (xs @ a # ys) q \<longleftrightarrow> chain h p xs a \<and> chain h a ys q"
  by (induction xs arbitrary: p) auto

lemma chain_snoc:
  "chain h p (xs @ [a]) q \<longleftrightarrow> chain h p xs a \<and> nxt h a = Some q \<and> prv h q = Some a"
  by (simp add: chain_append)

lemma chain_retarget:
  "chain h p as q \<Longrightarrow> distinct (p # as) \<Longrightarrow>
   \<forall>x \<in> set (p # as). x \<noteq> last (p # as) \<longrightarrow> nxt h' x = nxt h x \<Longrightarrow>
   nxt h' (last (p # as)) = Some q' \<Longrightarrow>
   \<forall>x \<in> set as. prv h' x = prv h x \<Longrightarrow>
   prv h' q' = Some (last (p # as)) \<Longrightarrow> q' \<notin> set as \<Longrightarrow>
   chain h' p as q'"
proof (induction as arbitrary: p)
  case Nil
  then show ?case by simp
next
  case (Cons a as)
  have pa: "p \<noteq> last (p # a # as)" using Cons.prems(2) by auto
  have 1: "nxt h' p = Some a" using Cons.prems(1,3) pa by simp
  have 2: "prv h' a = Some p" using Cons.prems(1,5) by simp
  have "chain h' a as q'"
  proof (rule Cons.IH)
    show "chain h a as q" using Cons.prems(1) by simp
    show "distinct (a # as)" using Cons.prems(2) by simp
    show "\<forall>x \<in> set (a # as). x \<noteq> last (a # as) \<longrightarrow> nxt h' x = nxt h x"
      using Cons.prems(3) by simp
    show "nxt h' (last (a # as)) = Some q'" using Cons.prems(4) by simp
    show "\<forall>x \<in> set as. prv h' x = prv h x" using Cons.prems(5) by simp
    show "prv h' q' = Some (last (a # as))" using Cons.prems(6) by simp
    show "q' \<notin> set as" using Cons.prems(7) by simp
  qed
  with 1 2 show ?case by simp
qed

lemma chain_last:
  "chain h p as q \<Longrightarrow> nxt h (last (p # as)) = Some q \<and> prv h q = Some (last (p # as))"
  by (induction as arbitrary: p) auto

lemma chain_dom: "chain h p as q \<Longrightarrow> x \<in> set (p # as) \<Longrightarrow> h x \<noteq> None"
  by (induction as arbitrary: p) (auto simp: nxt_def split: option.splits)

section \<open>The list operations preserve the ring\<close>

lemma load_Some [simp]: "load s (Some a) = elements s a"
  by (simp add: load_def)

lemma store_Some:
  "elements s a = Some n \<Longrightarrow> store (Some a) f s = Some (s\<lparr>elements := (elements s)(a \<mapsto> f n)\<rparr>)"
  by (simp add: store_def)

lemma list_insert_result:
  assumes "elements s e = Some ne" "elements s at = Some na" "e_next na = Some r"
    and "elements s r = Some nr" "e \<noteq> at" "e \<noteq> r"
  shows "list_insert e (Some at) s =
     Some (s\<lparr>elements := (\<lambda>x.
               if x = e then Some (ne\<lparr>e_prev := Some at, e_next := Some r, e_list := Some (lister s)\<rparr>)
               else if x = r then Some ((if at = r then na\<lparr>e_next := Some e\<rparr> else nr)\<lparr>e_prev := Some e\<rparr>)
               else if x = at then Some (na\<lparr>e_next := Some e\<rparr>)
               else elements s x),
             lister_len := lister_len s + 1\<rparr>)"
  using assms
  by (auto simp: list_insert_def store_def fun_eq_iff)

lemma chain_hd: "chain h p as q \<Longrightarrow> nxt h p = Some (hd (as @ [q]))"
  by (cases as) auto

lemma nxt_SomeD: "nxt h a = Some b \<Longrightarrow> \<exists>n. h a = Some n \<and> e_next n = Some b"
  by (auto simp: nxt_def split: option.splits)

lemma prv_SomeD: "prv h a = Some b \<Longrightarrow> \<exists>n. h a = Some n \<and> e_prev n = Some b"
  by (auto simp: prv_def split: option.splits)

lemma linked_root:
  assumes "linked s as"
  shows "\<exists>nr. elements s (lister s) = Some nr \<and> e_next nr = Some (hd (as @ [lister s])) \<and>
           e_prev nr = Some (last (lister s # as))"
proof -
  have c: "chain (elements s) (lister s) as (lister s)" using assms by (simp add: linked_def)
  from chain_hd[OF c] chain_last[OF c] show ?thesis
    by (auto dest!: nxt_SomeD prv_SomeD)
qed

lemma linked_last:
  assumes "linked s as"
  shows "\<exists>na. elements s (last (lister s # as)) = Some na \<and> e_next na = Some (lister s)"
proof -
  have c: "chain (elements s) (lister s) as (lister s)" using assms by (simp add: linked_def)
  from chain_last[OF c] show ?thesis by (auto dest!: nxt_SomeD)
qed

lemma linked_elements:
  "linked s as \<Longrightarrow> a \<in> set as \<Longrightarrow> \<exists>n. elements s a = Some n \<and> e_list n = Some (lister s)"
  by (simp add: linked_def)

lemma PushBack_linked:
  assumes L: "linked s as" and B: "below_brk s"
  shows "\<exists>s'. list_PushBack v s = Some (brk s, s') \<and> linked s' (as @ [brk s]) \<and>
           mapper s' = mapper s \<and> elemvals s' = elemvals s \<and> brk s' = Suc (brk s) \<and>
           lister s' = lister s \<and> (\<forall>a. a \<noteq> brk s \<longrightarrow> valp s' a = valp s a) \<and>
           valp s' (brk s) = v \<and> (\<forall>a. Suc (brk s) \<le> a \<longrightarrow> elements s' a = None)"
proof -
  define r where "r = lister s"
  define e where "e = brk s"
  define at where "at = last (r # as)"
  define h where "h = elements s"
  obtain nr where nr: "h r = Some nr" "e_next nr = Some (hd (as @ [r]))" "e_prev nr = Some at"
    using linked_root[OF L] by (auto simp: r_def at_def h_def)
  obtain na where na: "h at = Some na" "e_next na = Some r"
    using linked_last[OF L] by (auto simp: r_def at_def h_def)
  have he: "h e = None" using B by (simp add: below_brk_def e_def h_def)
  have er: "e \<noteq> r" and eat: "e \<noteq> at" using he nr na by auto
  have eas: "e \<notin> set as"
    using L he by (auto simp: linked_def h_def)
  define z where "z = \<lparr>e_next = None, e_prev = None, e_list = None, e_Value = v\<rparr>"
  define s1 where "s1 = s\<lparr>elements := h(e \<mapsto> z), brk := Suc e\<rparr>"
  define h' where "h' = (\<lambda>x.
               if x = e then Some (z\<lparr>e_prev := Some at, e_next := Some r, e_list := Some r\<rparr>)
               else if x = r then Some ((if at = r then na\<lparr>e_next := Some e\<rparr> else nr)\<lparr>e_prev := Some e\<rparr>)
               else if x = at then Some (na\<lparr>e_next := Some e\<rparr>)
               else h x)"
  define s' where "s' = s\<lparr>elements := h', lister_len := lister_len s + 1, brk := Suc e\<rparr>"
  have ins: "list_insert e (Some at) s1 = Some s'"
  proof -
    have "list_insert e (Some at) s1 =
       Some (s1\<lparr>elements := (\<lambda>x.
               if x = e then Some (z\<lparr>e_prev := Some at, e_next := Some r, e_list := Some (lister s1)\<rparr>)
               else if x = r then Some ((if at = r then na\<lparr>e_next := Some e\<rparr> else nr)\<lparr>e_prev := Some e\<rparr>)
               else if x = at then Some (na\<lparr>e_next := Some e\<rparr>)
               else elements s1 x),
             lister_len := lister_len s1 + 1\<rparr>)"
      by (rule list_insert_result) (use nr na er eat in \<open>auto simp: s1_def\<close>)
    also have "\<dots> = Some s'"
      by (auto simp: s1_def s'_def h'_def r_def fun_eq_iff)
    finally show ?thesis .
  qed
  have pb: "list_PushBack v s = Some (e, s')"
    using nr ins
    by (simp add: list_PushBack_def list_lazyInit_def list_insertValue_def
        r_def[symmetric] h_def[symmetric] e_def[symmetric] z_def[symmetric] s1_def[symmetric])
  have nx: "nxt h' x = (if x = e then Some r else if x = at then Some e else nxt h x)" for x
    using nr na by (auto simp: nxt_def h'_def z_def)
  have pv: "prv h' x = (if x = e then Some at else if x = r then Some e else prv h x)" for x
    using nr na by (auto simp: prv_def h'_def z_def)
  have c: "chain h r as r" and d: "distinct as" and ras: "r \<notin> set as"
    using L by (auto simp: linked_def r_def h_def)
  have "chain h' r as e"
  proof (rule chain_retarget[OF c])
    show "distinct (r # as)" using d ras by simp
    show "\<forall>x\<in>set (r # as). x \<noteq> last (r # as) \<longrightarrow> nxt h' x = nxt h x"
      using er eas by (auto simp: nx at_def)
    show "nxt h' (last (r # as)) = Some e" using eat by (simp add: nx at_def)
    show "\<forall>x\<in>set as. prv h' x = prv h x" using eas ras by (auto simp: pv)
    show "prv h' e = Some (last (r # as))" by (simp add: pv at_def)
    show "e \<notin> set as" by (rule eas)
  qed
  then have c': "chain h' r (as @ [e]) r"
    using er by (simp add: chain_snoc nx pv)
  have lst: "\<exists>n. h' a = Some n \<and> e_list n = Some r" if "a \<in> set (as @ [e])" for a
  proof (cases "a = e")
    case True then show ?thesis by (simp add: h'_def)
  next
    case False
    then have a: "a \<in> set as" using that by simp
    then have "a \<noteq> r" using ras by auto
    moreover obtain n where "h a = Some n" "e_list n = Some r"
      using linked_elements[OF L a] by (auto simp: h_def r_def)
    ultimately show ?thesis using False na by (auto simp: h'_def)
  qed
  have dead: "e_list n = None" if "h' a = Some n" "a \<notin> set (as @ [e])" for a n
  proof -
    have old: "h b = Some m \<Longrightarrow> b \<notin> set as \<Longrightarrow> e_list m = None" for b m
      using L by (simp add: linked_def h_def)
    have nr0: "e_list nr = None" using old[OF nr(1) ras] .
    have atr: "at = r \<Longrightarrow> na = nr" using na nr by simp
    have "at \<in> set (r # as)" unfolding at_def by (rule last_in_set) simp
    then have atas: "at \<noteq> r \<Longrightarrow> at \<in> set as" by auto
    have ae: "a \<noteq> e" "a \<notin> set as" using that(2) by auto
    show ?thesis
    proof (cases "a = r")
      case True
      then show ?thesis using that(1) ae nr0 atr by (auto simp: h'_def split: if_splits)
    next
      case False
      then have "a \<noteq> at" using atas ae by auto
      then have "h a = Some n" using that(1) False ae by (simp add: h'_def)
      then show ?thesis using old ae by blast
    qed
  qed
  have L': "linked s' (as @ [e])"
    unfolding linked_def
  proof (intro conjI)
    show "chain (elements s') (lister s') (as @ [e]) (lister s')"
      using c' by (simp add: s'_def r_def)
    show "distinct (as @ [e])" using d eas by simp
    show "lister s' \<notin> set (as @ [e])" using ras er by (simp add: s'_def r_def[symmetric])
    show "lister_len s' = int (length (as @ [e]))" using L by (simp add: s'_def linked_def)
    show "\<forall>a\<in>set (as @ [e]). \<exists>n. elements s' a = Some n \<and> e_list n = Some (lister s')"
      using lst by (simp add: s'_def r_def)
    show "\<forall>a n. elements s' a = Some n \<longrightarrow> a \<notin> set (as @ [e]) \<longrightarrow> e_list n = None"
      using dead by (simp add: s'_def)
  qed
  have vp: "valp s' a = valp s a" if "a \<noteq> e" for a
    using that nr na by (auto simp: valp_def s'_def h'_def h_def[symmetric])
  have ve: "valp s' e = v" by (simp add: valp_def s'_def h'_def z_def)
  have fr: "elements s' a = None" if "Suc e \<le> a" for a
  proof -
    have "h a = None" using that B by (simp add: below_brk_def e_def h_def)
    moreover have "a \<noteq> e" using that by simp
    moreover have "a \<noteq> r" "a \<noteq> at" using \<open>h a = None\<close> nr na by auto
    ultimately show ?thesis by (simp add: s'_def h'_def)
  qed
  show ?thesis
    using pb L' vp ve fr by (intro exI[of _ s']) (simp add: e_def[symmetric] s'_def r_def)
qed

section \<open>Consequences of the invariant\<close>

lemma repr_entry:
  assumes "repr s as xs" "i < length as"
  shows "entry s (as ! i) = Some \<lparr>Key = fst (xs ! i), Value = snd (xs ! i)\<rparr>"
proof -
  have m: "contents s as = map Some xs" using assms by (simp add: repr_def)
  then have len: "length xs = length as"
    by (metis contents_def length_map)
  from m have "contents s as ! i = map Some xs ! i" by simp
  then have "map_option (\<lambda>ev. (Key ev, Value ev)) (entry s (as ! i)) = Some (xs ! i)"
    using assms(2) len by (simp add: contents_def)
  then show ?thesis by (cases "xs ! i") auto
qed

lemma repr_length: "repr s as xs \<Longrightarrow> length xs = length as"
  by (metis repr_def contents_def length_map)

lemma repr_mapper:
  assumes "repr s as xs"
  shows "mapper s k = Some a \<longleftrightarrow> (\<exists>i < length as. as ! i = a \<and> fst (xs ! i) = k)"
proof
  assume m: "mapper s k = Some a"
  then have "a \<in> set as" and k: "map_option Key (entry s a) = Some k"
    using assms by (auto simp: repr_def in_sync_def)
  then obtain i where i: "i < length as" "as ! i = a" by (auto simp: in_set_conv_nth)
  with repr_entry[OF assms, of i] k have "fst (xs ! i) = k" by auto
  with i show "\<exists>i < length as. as ! i = a \<and> fst (xs ! i) = k" by blast
next
  assume "\<exists>i < length as. as ! i = a \<and> fst (xs ! i) = k"
  then obtain i where i: "i < length as" "as ! i = a" "fst (xs ! i) = k" by blast
  then have "a \<in> set as" by auto
  then obtain ev where "entry s a = Some ev" "mapper s (Key ev) = Some a"
    using assms by (auto simp: repr_def in_sync_def)
  with repr_entry[OF assms, of i] i show "mapper s k = Some a" by auto
qed

lemma repr_dom: 
  assumes "repr s as xs"
  shows "dom (mapper s) = set (map fst xs)"
proof -
  have len: "length xs = length as" by (rule repr_length[OF assms])
  have "k \<in> dom (mapper s) \<longleftrightarrow> k \<in> set (map fst xs)" for k
  proof -
    have "k \<in> dom (mapper s) \<longleftrightarrow> (\<exists>i < length as. fst (xs ! i) = k)"
      by (auto simp: dom_def repr_mapper[OF assms])
    also have "\<dots> \<longleftrightarrow> (\<exists>i < length (map fst xs). map fst xs ! i = k)"
      using len by auto
    also have "\<dots> \<longleftrightarrow> k \<in> set (map fst xs)"
      by (simp only: in_set_conv_nth)
    finally show ?thesis .
  qed
  then show ?thesis by blast
qed

lemma repr_distinct:
  assumes "repr s as xs"
  shows "distinct (map fst xs)"
proof -
  have len: "length xs = length as" by (rule repr_length[OF assms])
  have d: "distinct as" using assms by (simp add: repr_def linked_def)
  have "i = j" if "i < length xs" "j < length xs" "fst (xs ! i) = fst (xs ! j)" for i j
  proof -
    have "mapper s (fst (xs ! i)) = Some (as ! i)" "mapper s (fst (xs ! i)) = Some (as ! j)"
      using that len by (auto simp: repr_mapper[OF assms])
    then have "as ! i = as ! j" by simp
    then show ?thesis using d that len by (simp add: nth_eq_iff_index_eq)
  qed
  then show ?thesis by (auto simp: distinct_conv_nth)
qed

section \<open>Set, Get and Delete on represented states\<close>

lemma below_brkD:
  "below_brk s \<Longrightarrow> elements s a = Some n \<Longrightarrow> a < brk s"
  "below_brk s \<Longrightarrow> elemvals s p = Some ev \<Longrightarrow> p < brk s"
  by (auto simp: below_brk_def) (metis not_le option.distinct(1))+

lemma entry_SomeD:
  "entry s a = Some ev \<Longrightarrow> \<exists>p. valp s a = Some p \<and> elemvals s p = Some ev"
  by (auto simp: entry_def split: option.splits)

lemma repr_entry_ex:
  "repr s as xs \<Longrightarrow> a \<in> set as \<Longrightarrow> \<exists>ev. entry s a = Some ev \<and> mapper s (Key ev) = Some a"
  by (simp add: repr_def in_sync_def)

lemma Set_absent:
  assumes A: "repr s as xs" and K: "mapper s k = None"
  shows "\<exists>s'. Set k v s = Some s' \<and> repr s' (as @ [Suc (brk s)]) (xs @ [(k, v)]) \<and>
           elemvals s' = (elemvals s)(brk s \<mapsto> \<lparr>Key = k, Value = v\<rparr>) \<and>
           brk s' = Suc (Suc (brk s)) \<and> valp s' (Suc (brk s)) = Some (brk s) \<and>
           (\<forall>a \<in> set as. valp s' a = valp s a)"
proof -
  define p where "p = brk s"
  define e where "e = Suc p"
  define s1 where "s1 = s\<lparr>elemvals := (elemvals s)(p \<mapsto> \<lparr>Key = k, Value = v\<rparr>), brk := Suc p\<rparr>"
  have L: "linked s as" and S: "in_sync s as" and B: "below_brk s"
    and C: "contents s as = map Some xs"
    using A by (auto simp: repr_def)
  have L1: "linked s1 as" using L by (simp add: linked_def s1_def)
  have B1: "below_brk s1" using B by (simp add: below_brk_def s1_def p_def)
  obtain s2 where pb: "list_PushBack (Some p) s1 = Some (e, s2)"
    and L2: "linked s2 (as @ [e])" and m2: "mapper s2 = mapper s"
    and ev2: "elemvals s2 = (elemvals s)(p \<mapsto> \<lparr>Key = k, Value = v\<rparr>)"
    and b2: "brk s2 = Suc e" and l2: "lister s2 = lister s"
    and vp2: "\<And>a. a \<noteq> e \<Longrightarrow> valp s2 a = valp s a"
    and ve2: "valp s2 e = Some p"
    and fr2: "\<And>a. Suc e \<le> a \<Longrightarrow> elements s2 a = None"
  proof -
    from PushBack_linked[OF L1 B1, of "Some p"]
    obtain s2 where *: "list_PushBack (Some p) s1 = Some (brk s1, s2)" "linked s2 (as @ [brk s1])"
      "mapper s2 = mapper s1" "elemvals s2 = elemvals s1" "brk s2 = Suc (brk s1)"
      "lister s2 = lister s1" "\<forall>a. a \<noteq> brk s1 \<longrightarrow> valp s2 a = valp s1 a"
      "valp s2 (brk s1) = Some p" "\<forall>a. Suc (brk s1) \<le> a \<longrightarrow> elements s2 a = None"
      by blast
    have bs1: "brk s1 = e" by (simp add: s1_def e_def)
    have v1: "valp s1 a = valp s a" for a by (simp add: valp_def s1_def)
    show thesis
      by (rule that[of s2]) (use * bs1 v1 in \<open>auto simp: s1_def\<close>)
  qed
  define s' where "s' = s2\<lparr>mapper := (mapper s2)(k \<mapsto> e)\<rparr>"
  have set: "Set k v s = Some s'"
    using K pb by (simp add: Set_def new_ElemVal_def p_def[symmetric] s1_def[symmetric] s'_def)
  have old: "a < p" "a \<noteq> e" if asm: "a \<in> set as" for a
  proof -
    obtain n where "elements s a = Some n" using linked_elements[OF L asm] by blast
    then show "a < p" using below_brkD(1)[OF B] by (simp add: p_def)
    then show "a \<noteq> e" by (simp add: e_def)
  qed
  have ent_old: "entry s' a = entry s a" if asm: "a \<in> set as" for a
  proof -
    obtain ev where ev: "entry s a = Some ev" using repr_entry_ex[OF A asm] by blast
    then obtain q where q: "valp s a = Some q" "elemvals s q = Some ev"
      by (auto dest: entry_SomeD)
    then have "q \<noteq> p" using below_brkD(2)[OF B] by (auto simp: p_def)
    moreover have "valp s' a = Some q" using vp2[OF old(2)[OF asm]] q by (simp add: valp_def s'_def)
    ultimately show ?thesis using ev q by (simp add: entry_def s'_def ev2)
  qed
  have vp': "valp s' a = valp s2 a" for a by (simp add: valp_def s'_def)
  have ent_new: "entry s' e = Some \<lparr>Key = k, Value = v\<rparr>"
    by (simp add: entry_def vp' ve2) (simp add: s'_def ev2)
  have L': "linked s' (as @ [e])" using L2 by (simp add: linked_def s'_def)
  have B': "below_brk s'"
    unfolding below_brk_def
  proof (intro conjI allI impI)
    fix a assume "brk s' \<le> a"
    then show "elements s' a = None" using fr2[of a] by (simp add: s'_def b2)
  next
    fix q assume "brk s' \<le> q"
    then have "Suc (Suc p) \<le> q" by (simp add: s'_def b2 e_def)
    then have "brk s \<le> q" "q \<noteq> p" by (auto simp: p_def)
    then show "elemvals s' q = None" using B by (simp add: s'_def ev2 below_brk_def)
  qed
  have S': "in_sync s' (as @ [e])"
    unfolding in_sync_def
  proof (intro conjI ballI allI impI)
    fix a assume a: "a \<in> set (as @ [e])"
    show "\<exists>ev. entry s' a = Some ev \<and> mapper s' (Key ev) = Some a"
    proof (cases "a = e")
      case True
      then show ?thesis by (simp add: ent_new) (simp add: s'_def)
    next
      case False
      then have a': "a \<in> set as" using a by simp
      then obtain ev where ev: "entry s a = Some ev" "mapper s (Key ev) = Some a"
        using repr_entry_ex[OF A] by blast
      then have "Key ev \<noteq> k" using K by auto
      then show ?thesis using ev ent_old[OF a'] by (simp add: s'_def m2)
    qed
  next
    fix k' a assume m: "mapper s' k' = Some a"
    show "a \<in> set (as @ [e])"
      using m S by (auto simp: s'_def m2 in_sync_def split: if_splits)
    show "map_option Key (entry s' a) = Some k'"
    proof (cases "k' = k")
      case True
      then have "a = e" using m by (simp add: s'_def)
      then show ?thesis using True by (simp add: ent_new)
    next
      case False
      then have m': "mapper s k' = Some a" using m by (simp add: s'_def m2)
      then have "a \<in> set as" "map_option Key (entry s a) = Some k'"
        using S by (auto simp: in_sync_def)
      then show ?thesis using ent_old by simp
    qed
  next
    have "valp s' a \<noteq> valp s' e" if asm: "a \<in> set as" for a
    proof -
      obtain ev where "entry s a = Some ev" using repr_entry_ex[OF A asm] by blast
      then obtain q where q: "valp s a = Some q" "elemvals s q = Some ev"
        by (auto dest: entry_SomeD)
      then have "q \<noteq> p" using below_brkD(2)[OF B] by (auto simp: p_def)
      then show ?thesis using q vp2[OF old(2)[OF asm]] by (simp add: vp' ve2)
    qed
    moreover have "inj_on (valp s') (set as)"
    proof (rule inj_onI)
      fix a b assume "a \<in> set as" "b \<in> set as" "valp s' a = valp s' b"
      then have "valp s a = valp s b" using vp2 old(2) by (simp add: vp')
      then show "a = b" using S \<open>a \<in> set as\<close> \<open>b \<in> set as\<close> by (auto simp: in_sync_def dest: inj_onD)
    qed
    ultimately show "inj_on (valp s') (set (as @ [e]))"
      unfolding inj_on_def by (metis Un_iff empty_iff empty_set insert_iff list.simps(15) set_append)
  qed
  have C': "contents s' (as @ [e]) = map Some (xs @ [(k, v)])"
  proof -
    have "contents s' as = contents s as"
      unfolding contents_def by (rule map_cong) (simp_all add: ent_old)
    moreover have "contents s' (as @ [e]) = contents s' as @ [Some (k, v)]"
      by (simp add: contents_def ent_new)
    ultimately show ?thesis using C by simp
  qed
  have "elemvals s' = (elemvals s)(p \<mapsto> \<lparr>Key = k, Value = v\<rparr>)" "brk s' = Suc e"
    by (simp_all add: s'_def ev2 b2)
  moreover have "valp s' e = Some p" by (simp add: vp' ve2)
  moreover have "\<forall>a \<in> set as. valp s' a = valp s a" using vp2 old(2) by (simp add: vp')
  ultimately show ?thesis
    using set L' S' B' C' by (auto simp: repr_def e_def p_def)
qed

lemma repr_mapper_entry:
  assumes A: "repr s as xs" and K: "mapper s k = Some a"
  shows "a \<in> set as \<and> (\<exists>p ev. elements s a \<noteq> None \<and> valp s a = Some p \<and> elemvals s p = Some ev \<and> Key ev = k)"
proof -
  have "a \<in> set as" "map_option Key (entry s a) = Some k"
    using A K by (auto simp: repr_def in_sync_def)
  then show ?thesis
    by (auto dest!: entry_SomeD simp: valp_def split: option.splits)
qed

lemma Get_repr:
  assumes A: "repr s as xs"
  shows "Get k s = Some (case map_of xs k of None \<Rightarrow> (None, False) | Some v \<Rightarrow> (v, True))"
proof (cases "mapper s k")
  case None
  then have "k \<notin> dom (mapper s)" by (simp add: dom_def)
  then have "k \<notin> set (map fst xs)" by (simp only: repr_dom[OF A], simp)
  then have "map_of xs k = None" by (simp add: map_of_eq_None_iff)
  then show ?thesis using None by (simp add: Get_def)
next
  case (Some a)
  then obtain i where i: "i < length as" "as ! i = a" "fst (xs ! i) = k"
    using repr_mapper[OF A] by blast
  have len: "length xs = length as" by (rule repr_length[OF A])
  have "(k, snd (xs ! i)) \<in> set xs"
    using i len by (metis nth_mem prod.collapse)
  then have mo: "map_of xs k = Some (snd (xs ! i))"
    using repr_distinct[OF A] by simp
  have "entry s a = Some \<lparr>Key = k, Value = snd (xs ! i)\<rparr>"
    using repr_entry[OF A i(1)] i by simp
  then obtain p where "valp s a = Some p" "elemvals s p = Some \<lparr>Key = k, Value = snd (xs ! i)\<rparr>"
    by (auto dest: entry_SomeD)
  then show ?thesis using Some mo
    by (auto simp: Get_def deref_ElemVal_def valp_def split: option.splits)
qed

lemma Set_present:
  assumes A: "repr s as xs" and K: "mapper s k = Some a"
  shows "\<exists>s'. Set k v s = Some s' \<and>
           repr s' as (map (\<lambda>(k', v'). if k' = k then (k', v) else (k', v')) xs) \<and>
           (\<exists>p. valp s a = Some p \<and> s' = s\<lparr>elemvals := (elemvals s)(p \<mapsto> \<lparr>Key = k, Value = v\<rparr>)\<rparr>)"
proof -
  have L: "linked s as" and S: "in_sync s as" and B: "below_brk s"
    and C: "contents s as = map Some xs"
    using A by (auto simp: repr_def)
  obtain p ev n where a: "a \<in> set as" and n: "elements s a = Some n" and p: "valp s a = Some p"
    and ev: "elemvals s p = Some ev" and kev: "Key ev = k"
    using repr_mapper_entry[OF A K] by auto
  define s' where "s' = s\<lparr>elemvals := (elemvals s)(p \<mapsto> ev\<lparr>Value := v\<rparr>)\<rparr>"
  have set: "Set k v s = Some s'"
    using K n p ev by (simp add: Set_def deref_ElemVal_def valp_def s'_def)
  have vp: "valp s' b = valp s b" for b by (simp add: valp_def s'_def)
  have ent_a: "entry s' a = Some (ev\<lparr>Value := v\<rparr>)" by (simp add: entry_def vp p) (simp add: s'_def)
  have ent_a0: "entry s a = Some ev" by (simp add: entry_def p ev)
  have ent_old: "entry s' b = entry s b" if b: "b \<in> set as" "b \<noteq> a" for b
  proof -
    have "inj_on (valp s) (set as)" using S by (simp add: in_sync_def)
    from inj_onD[OF this _ b(1) a] have "valp s b \<noteq> Some p" using b(2) p by auto
    then show ?thesis unfolding entry_def vp by (auto simp: s'_def split: option.splits)
  qed
  have key_old: "map_option Key (entry s' b) = map_option Key (entry s b)" if "b \<in> set as" for b
    using ent_old[of b] that ent_a ent_a0 by (cases "b = a") auto
  have L': "linked s' as" using L by (simp add: linked_def s'_def)
  have B': "below_brk s'"
    using B below_brkD(2)[OF B ev] by (auto simp: below_brk_def s'_def)
  have S': "in_sync s' as"
    unfolding in_sync_def
  proof (intro conjI ballI allI impI)
    fix b assume b: "b \<in> set as"
    then obtain evb where "entry s b = Some evb" "mapper s (Key evb) = Some b"
      using repr_entry_ex[OF A] by blast
    then show "\<exists>ev. entry s' b = Some ev \<and> mapper s' (Key ev) = Some b"
      using key_old[OF b] by (cases "entry s' b") (auto simp: s'_def)
  next
    fix k' b assume m: "mapper s' k' = Some b"
    then have "b \<in> set as" "map_option Key (entry s b) = Some k'"
      using S by (auto simp: in_sync_def s'_def)
    then show "b \<in> set as" "map_option Key (entry s' b) = Some k'"
      using key_old by auto
  next
    show "inj_on (valp s') (set as)"
      using S by (simp add: in_sync_def inj_on_def vp)
  qed
  define U where "U = (\<lambda>(k', v' :: 'a iface). if k' = k then (k', v) else (k', v'))"
  have C': "contents s' as = map Some (map U xs)"
  proof -
    have "map_option (\<lambda>ev. (Key ev, Value ev)) (entry s' b) =
          map_option U (map_option (\<lambda>ev. (Key ev, Value ev)) (entry s b))" if b: "b \<in> set as" for b
    proof (cases "b = a")
      case True
      then show ?thesis by (simp add: ent_a ent_a0 U_def kev)
    next
      case False
      obtain evb where evb: "entry s b = Some evb" "mapper s (Key evb) = Some b"
        using repr_entry_ex[OF A b] by blast
      then have "Key evb \<noteq> k" using K False by auto
      then show ?thesis using ent_old[OF b False] evb by (simp add: U_def)
    qed
    then have "contents s' as = map (map_option U) (contents s as)"
      by (simp add: contents_def)
    then show ?thesis using C by simp
  qed
  have "ev\<lparr>Value := v\<rparr> = \<lparr>Key = k, Value = v\<rparr>" using kev by (cases ev) simp
  then have "s' = s\<lparr>elemvals := (elemvals s)(p \<mapsto> \<lparr>Key = k, Value = v\<rparr>)\<rparr>" by (simp add: s'_def)
  then show ?thesis
    using set L' S' B' C' p by (auto simp: repr_def U_def)
qed

lemma list_remove_result:
  assumes "elements s e = Some n" "e_prev n = Some pa" "e_next n = Some na"
    and "elements s pa = Some npa" "elements s na = Some nna" "e \<noteq> pa" "e \<noteq> na"
  shows "list_remove e s =
     Some (s\<lparr>elements := (\<lambda>x.
               if x = e then Some (n\<lparr>e_next := None, e_prev := None, e_list := None\<rparr>)
               else if x = na then Some ((if pa = na then npa\<lparr>e_next := Some na\<rparr> else nna)\<lparr>e_prev := Some pa\<rparr>)
               else if x = pa then Some (npa\<lparr>e_next := Some na\<rparr>)
               else elements s x),
             lister_len := lister_len s - 1\<rparr>)"
  using assms
  by (auto simp: list_remove_def store_def fun_eq_iff)

lemma chain_split_mem:
  assumes "chain h p as q" "a \<in> set as"
  shows "\<exists>ys zs. as = ys @ a # zs \<and> chain h p ys a \<and> chain h a zs q"
proof -
  obtain ys zs where "as = ys @ a # zs" using assms(2) by (auto simp: in_set_conv_decomp)
  with assms(1) show ?thesis by (auto simp: chain_append)
qed

lemma Remove_linked:
  assumes L: "linked s as" and A: "a \<in> set as"
  shows "\<exists>s'. list_Remove a s = Some s' \<and> linked s' (remove1 a as) \<and>
           mapper s' = mapper s \<and> elemvals s' = elemvals s \<and> brk s' = brk s \<and>
           lister s' = lister s \<and> (\<forall>b. valp s' b = valp s b) \<and>
           (\<forall>b. elements s b = None \<longrightarrow> elements s' b = None) \<and>
           (\<exists>n. elements s' a = Some n \<and> e_next n = None \<and> e_prev n = None \<and> e_list n = None)"
proof -
  define r where "r = lister s"
  define h where "h = elements s"
  have c: "chain h r as r" and d: "distinct as" and ras: "r \<notin> set as"
    using L by (auto simp: linked_def r_def h_def)
  obtain ys zs where as: "as = ys @ a # zs" and c1: "chain h r ys a" and c2: "chain h a zs r"
    using chain_split_mem[OF c A] by blast
  define pa where "pa = last (r # ys)"
  define na where "na = hd (zs @ [r])"
  obtain n where n: "h a = Some n" "e_list n = Some r"
    using linked_elements[OF L A] by (auto simp: h_def r_def)
  have "prv h a = Some pa" using chain_last[OF c1] by (simp add: pa_def)
  then have np: "e_prev n = Some pa" using n by (simp add: prv_def)
  have "nxt h a = Some na" using chain_hd[OF c2] by (simp add: na_def)
  then have nn: "e_next n = Some na" using n by (simp add: nxt_def)
  have "nxt h pa = Some a" using chain_last[OF c1] by (simp add: pa_def)
  then obtain npa where npa: "h pa = Some npa" by (auto dest: nxt_SomeD)
  have "prv h na = Some a" using c2 by (cases zs) (auto simp: na_def)
  then obtain nna where nna: "h na = Some nna" by (auto dest: prv_SomeD)
  have pa_in: "pa \<in> set (r # ys)" unfolding pa_def by (rule last_in_set) simp
  have na_in: "na \<in> set (zs @ [r])" unfolding na_def by (rule hd_in_set) simp
  have apa: "a \<noteq> pa" using pa_in d ras A as by auto
  have ana: "a \<noteq> na" using na_in d ras A as by auto
  define h' where "h' = (\<lambda>x.
               if x = a then Some (n\<lparr>e_next := None, e_prev := None, e_list := None\<rparr>)
               else if x = na then Some ((if pa = na then npa\<lparr>e_next := Some na\<rparr> else nna)\<lparr>e_prev := Some pa\<rparr>)
               else if x = pa then Some (npa\<lparr>e_next := Some na\<rparr>)
               else h x)"
  define s' where "s' = s\<lparr>elements := h', lister_len := lister_len s - 1\<rparr>"
  have "list_remove a s = Some s'"
    unfolding s'_def h'_def h_def
    by (rule list_remove_result) (use n np nn npa nna apa ana in \<open>auto simp: h_def\<close>)
  then have rm: "list_Remove a s = Some s'"
    using n by (simp add: list_Remove_def h_def[symmetric] r_def[symmetric])
  have nx: "nxt h' x = (if x = a then None else if x = pa then Some na else nxt h x)" for x
    using npa nna by (auto simp: nxt_def h'_def)
  have pv: "prv h' x = (if x = a then None else if x = na then Some pa else prv h x)" for x
    using npa nna by (auto simp: prv_def h'_def)
  have dys: "distinct (r # ys)" "a \<notin> set ys" "a \<notin> set zs" "r \<notin> set zs" "set ys \<inter> set zs = {}"
    using d ras as by auto
  have c': "chain h' r (ys @ zs) r"
  proof (cases zs)
    case Nil
    then have nar: "na = r" by (simp add: na_def)
    have "chain h' r ys r"
    proof (rule chain_retarget[OF c1])
      show "distinct (r # ys)" by (rule dys)
      show "\<forall>x\<in>set (r # ys). x \<noteq> last (r # ys) \<longrightarrow> nxt h' x = nxt h x"
        unfolding pa_def[symmetric] using dys A ras by (auto simp: nx)
      show "nxt h' (last (r # ys)) = Some r" unfolding pa_def[symmetric] using apa by (simp add: nx nar)
      show "\<forall>x\<in>set ys. prv h' x = prv h x" using dys by (auto simp: pv nar)
      show "prv h' r = Some (last (r # ys))" unfolding pa_def[symmetric] using ras A by (auto simp: pv nar)
      show "r \<notin> set ys" using dys by simp
    qed
    then show ?thesis using Nil by simp
  next
    case (Cons z zs')
    then have naz: "na = z" by (simp add: na_def)
    have zr: "z \<noteq> r" "z \<notin> set ys" "z \<noteq> a" "z \<notin> set zs'" "r \<notin> set zs'" "a \<notin> set zs'"
      using d ras as Cons by auto
    have 1: "chain h' r ys z"
    proof (rule chain_retarget[OF c1])
      show "distinct (r # ys)" by (rule dys)
      show "\<forall>x\<in>set (r # ys). x \<noteq> last (r # ys) \<longrightarrow> nxt h' x = nxt h x"
        unfolding pa_def[symmetric] using dys A ras by (auto simp: nx)
      show "nxt h' (last (r # ys)) = Some z" unfolding pa_def[symmetric] using apa by (simp add: nx naz)
      show "\<forall>x\<in>set ys. prv h' x = prv h x" using dys zr by (auto simp: pv naz)
      show "prv h' z = Some (last (r # ys))" unfolding pa_def[symmetric] using zr by (auto simp: pv naz)
      show "z \<notin> set ys" using zr by simp
    qed
    have c3: "chain h z zs' r" using c2 Cons by simp
    have pz: "pa \<notin> set (z # zs')" using pa_in dys zr Cons by auto
    have 2: "chain h' z zs' r"
    proof (rule chain_retarget[OF c3])
      show "distinct (z # zs')" using d as Cons by simp
      show "\<forall>x\<in>set (z # zs'). x \<noteq> last (z # zs') \<longrightarrow> nxt h' x = nxt h x"
        using pz zr by (auto simp: nx)
      have "last (z # zs') \<in> set (z # zs')" by (rule last_in_set) simp
      then have "last (z # zs') \<noteq> a" "last (z # zs') \<noteq> pa" using pz zr by auto
      then show "nxt h' (last (z # zs')) = Some r" using chain_last[OF c3] by (simp add: nx)
      show "\<forall>x\<in>set zs'. prv h' x = prv h x" using zr by (auto simp: pv naz)
      show "prv h' r = Some (last (z # zs'))" using chain_last[OF c3] zr ras A by (auto simp: pv naz)
      show "r \<notin> set zs'" using zr by simp
    qed
    show ?thesis using 1 2 Cons by (simp add: chain_append)
  qed
  have rem: "remove1 a as = ys @ zs" using as dys by (simp add: remove1_append)
  have lst: "\<exists>n. h' b = Some n \<and> e_list n = Some r" if b: "b \<in> set (ys @ zs)" for b
  proof -
    have "b \<in> set as" "b \<noteq> a" using b as dys by auto
    then obtain nb where "h b = Some nb" "e_list nb = Some r"
      using linked_elements[OF L] by (auto simp: h_def r_def)
    then show ?thesis using \<open>b \<noteq> a\<close> npa nna by (auto simp: h'_def)
  qed
  have len: "lister_len s' = int (length (ys @ zs))"
    using L as by (simp add: linked_def s'_def)
  have dead: "e_list m = None" if "h' b = Some m" "b \<notin> set (ys @ zs)" for b m
  proof -
    have old: "h c = Some m' \<Longrightarrow> c \<notin> set as \<Longrightarrow> e_list m' = None" for c m'
      using L by (simp add: linked_def h_def)
    show ?thesis
    proof (cases "b = a")
      case True
      then show ?thesis using that by (auto simp: h'_def)
    next
      case False
      then have bas: "b \<notin> set as" using that(2) as by auto
      have "pa = na \<Longrightarrow> b = na \<Longrightarrow> e_list npa = None" using old[of pa npa] npa bas by auto
      moreover have "b = na \<Longrightarrow> e_list nna = None" using old[of na nna] nna bas by auto
      moreover have "b = pa \<Longrightarrow> e_list npa = None" using old[of pa npa] npa bas by auto
      moreover have "b \<noteq> na \<Longrightarrow> b \<noteq> pa \<Longrightarrow> e_list m = None"
        using old[of b m] that(1) bas False by (simp add: h'_def)
      ultimately show ?thesis using that(1) False by (auto simp: h'_def split: if_splits)
    qed
  qed
  have L': "linked s' (remove1 a as)"
    unfolding linked_def rem
  proof (intro conjI)
    show "chain (elements s') (lister s') (ys @ zs) (lister s')"
      using c' by (simp add: s'_def r_def)
    show "distinct (ys @ zs)" using d as by simp
    show "lister s' \<notin> set (ys @ zs)" using ras as by (simp add: s'_def r_def[symmetric])
    show "lister_len s' = int (length (ys @ zs))" by (rule len)
    show "\<forall>a\<in>set (ys @ zs). \<exists>n. elements s' a = Some n \<and> e_list n = Some (lister s')"
      using lst by (simp add: s'_def r_def)
    show "\<forall>a n. elements s' a = Some n \<longrightarrow> a \<notin> set (ys @ zs) \<longrightarrow> e_list n = None"
      using dead by (simp add: s'_def)
  qed
  have vp: "valp s' b = valp s b" for b
    using n npa nna by (auto simp: valp_def s'_def h'_def h_def[symmetric])
  have fr: "elements s' b = None" if "elements s b = None" for b
    using that n npa nna by (auto simp: s'_def h'_def h_def[symmetric])
  have cl: "\<exists>n. elements s' a = Some n \<and> e_next n = None \<and> e_prev n = None \<and> e_list n = None"
    by (simp add: s'_def h'_def)
  show ?thesis
    using rm L' vp fr cl by (intro exI[of _ s']) (simp add: s'_def)
qed

lemma Delete_absent: "mapper s k = None \<Longrightarrow> Delete k s = Some s"
  by (simp add: Delete_def)

lemma filter_key_middle:
  assumes "distinct (map fst (us @ x # ws))" "fst x = k"
  shows "filter (\<lambda>(k', v'). k' \<noteq> k) (us @ x # ws) = us @ ws"
proof -
  have "k \<notin> fst ` set us" "k \<notin> fst ` set ws" using assms by auto
  then have "filter (\<lambda>y. fst y \<noteq> k) us = us" "filter (\<lambda>y. fst y \<noteq> k) ws = ws"
    by (auto simp: filter_id_conv)
  then show ?thesis using assms(2) by (simp add: split_def)
qed

lemma Delete_present:
  assumes A: "repr s as xs" and K: "mapper s k = Some a"
  shows "\<exists>s'. Delete k s = Some s' \<and> repr s' (remove1 a as) (filter (\<lambda>(k', v'). k' \<noteq> k) xs) \<and>
           brk s' = brk s \<and> elemvals s' = elemvals s \<and> (\<forall>b. valp s' b = valp s b) \<and>
           mapper s' = (mapper s)(k := None) \<and>
           (\<exists>n. elements s' a = Some n \<and> e_next n = None \<and> e_prev n = None \<and> e_list n = None)"
proof -
  have L: "linked s as" and S: "in_sync s as" and B: "below_brk s"
    and C: "contents s as = map Some xs"
    using A by (auto simp: repr_def)
  have a: "a \<in> set as" and ka: "map_option Key (entry s a) = Some k"
    using S K by (auto simp: in_sync_def)
  obtain s1 where rm: "list_Remove a s = Some s1" and L1: "linked s1 (remove1 a as)"
    and m1: "mapper s1 = mapper s" and ev1: "elemvals s1 = elemvals s" and b1: "brk s1 = brk s"
    and vp1: "\<And>b. valp s1 b = valp s b"
    and fr1: "\<And>b. elements s b = None \<Longrightarrow> elements s1 b = None"
    and cl1: "\<exists>n. elements s1 a = Some n \<and> e_next n = None \<and> e_prev n = None \<and> e_list n = None"
    using Remove_linked[OF L a] by blast
  define s' where "s' = s1\<lparr>mapper := (mapper s1)(k := None)\<rparr>"
  have del: "Delete k s = Some s'" using K rm by (simp add: Delete_def s'_def)
  have d: "distinct as" using L by (simp add: linked_def)
  have set_rm: "set (remove1 a as) = set as - {a}" using d by simp
  have vp': "valp s' b = valp s b" for b
    using vp1[of b] by (simp add: valp_def s'_def)
  have ev': "elemvals s' = elemvals s" by (simp add: s'_def ev1)
  have ent: "entry s' b = entry s b" for b
    by (simp only: entry_def vp' ev')
  have L': "linked s' (remove1 a as)" using L1 by (simp add: linked_def s'_def)
  have B': "below_brk s'"
    using B fr1 by (auto simp: below_brk_def s'_def b1 ev1)
  have S': "in_sync s' (remove1 a as)"
    unfolding in_sync_def set_rm
  proof (intro conjI ballI allI impI)
    fix b assume b: "b \<in> set as - {a}"
    then obtain evb where evb: "entry s b = Some evb" "mapper s (Key evb) = Some b"
      using repr_entry_ex[OF A, of b] by auto
    then have "Key evb \<noteq> k" using K b by auto
    then show "\<exists>ev. entry s' b = Some ev \<and> mapper s' (Key ev) = Some b"
      using evb by (simp add: ent) (simp add: s'_def m1)
  next
    fix k' b assume m: "mapper s' k' = Some b"
    then have k': "k' \<noteq> k" and m': "mapper s k' = Some b"
      by (auto simp: s'_def m1 split: if_splits)
    then have b: "b \<in> set as" "map_option Key (entry s b) = Some k'"
      using S by (auto simp: in_sync_def)
    then have "b \<noteq> a" using ka k' by auto
    then show "b \<in> set as - {a}" using b by simp
    show "map_option Key (entry s' b) = Some k'" using b by (simp add: ent)
  next
    have "valp s' = valp s" by (rule ext) (rule vp')
    then show "inj_on (valp s') (set as - {a})"
      using S by (auto simp: in_sync_def inj_on_def)
  qed
  obtain ys zs where as: "as = ys @ a # zs" using a by (auto simp: in_set_conv_decomp)
  have rem: "remove1 a as = ys @ zs" using as d by (simp add: remove1_append)
  define f where "f = (\<lambda>b. map_option (\<lambda>ev. (Key ev, Value ev)) (entry s b))"
  have "map Some xs = map f ys @ f a # map f zs"
    using C as by (simp add: contents_def f_def)
  then obtain us x ws where xs: "xs = us @ x # ws" and us: "map Some us = map f ys"
    and x: "Some x = f a" and ws: "map Some ws = map f zs"
    by (auto simp: map_eq_append_conv map_eq_Cons_conv)
  have "fst x = k" using x ka by (auto simp: f_def)
  then have flt: "filter (\<lambda>(k', v'). k' \<noteq> k) xs = us @ ws"
    using repr_distinct[OF A] unfolding xs by (rule filter_key_middle[rotated])
  have C': "contents s' (remove1 a as) = map Some (filter (\<lambda>(k', v'). k' \<noteq> k) xs)"
    unfolding flt rem using us ws by (simp add: contents_def ent f_def)
  have "mapper s' = (mapper s)(k := None)" by (simp add: s'_def m1)
  then show ?thesis
    using del L' S' B' C' cl1 vp' by (auto simp: repr_def s'_def b1 ev1)
qed

section \<open>Cursors and traversal\<close>

lemma ElemVal_eta: "\<lparr>Key = Key ev, Value = Value ev\<rparr> = (ev :: 'v ElemVal)"
  by (cases ev) simp

lemma mk_Element_entry:
  "mk_Element x s =
     (case entry s x of
        None \<Rightarrow> None
      | Some ev \<Rightarrow> Some (\<lparr>elem = Some x, ElemValp = brk s\<rparr>, snd (new_ElemVal ev s)))"
  by (auto simp: mk_Element_def entry_def valp_def deref_ElemVal_def new_ElemVal_def ElemVal_eta
      split: option.splits)

lemma repr_new_ElemVal:
  assumes A: "repr s as xs"
  shows "repr (snd (new_ElemVal ev s)) as xs"
proof -
  define s' where "s' = snd (new_ElemVal ev s)"
  have s': "s' = s\<lparr>elemvals := (elemvals s)(brk s \<mapsto> ev), brk := Suc (brk s)\<rparr>"
    by (simp add: s'_def new_ElemVal_def)
  have L: "linked s as" and S: "in_sync s as" and B: "below_brk s"
    and C: "contents s as = map Some xs"
    using A by (auto simp: repr_def)
  have vp: "valp s' b = valp s b" for b by (simp add: valp_def s')
  have ent: "entry s' b = entry s b" if b: "b \<in> set as" for b
  proof -
    obtain evb where "entry s b = Some evb" using repr_entry_ex[OF A b] by blast
    then obtain q where q: "valp s b = Some q" "elemvals s q = Some evb"
      by (auto dest: entry_SomeD)
    then have "q \<noteq> brk s" using below_brkD(2)[OF B] by auto
    then show ?thesis using q by (simp add: entry_def vp) (simp add: s')
  qed
  have L': "linked s' as" using L by (simp add: linked_def s')
  have B': "below_brk s'" using B by (simp add: below_brk_def s')
  have m: "mapper s' = mapper s" by (simp add: s')
  have S': "in_sync s' as"
    using S ent unfolding in_sync_def m by (simp add: vp[abs_def])
  have "contents s' as = contents s as"
    unfolding contents_def by (rule map_cong) (simp_all add: ent)
  then have C': "contents s' as = map Some xs"
    using C by simp
  show ?thesis using L' S' B' C' by (simp add: repr_def s'_def)
qed

lemma new_ElemVal_frame:
  "brk (snd (new_ElemVal ev s)) = Suc (brk s)"
  "elemvals (snd (new_ElemVal ev s)) (brk s) = Some ev"
  "p \<noteq> brk s \<Longrightarrow> elemvals (snd (new_ElemVal ev s)) p = elemvals s p"
  "elements (snd (new_ElemVal ev s)) = elements s"
  "mapper (snd (new_ElemVal ev s)) = mapper s"
  "lister (snd (new_ElemVal ev s)) = lister s"
  "lister_len (snd (new_ElemVal ev s)) = lister_len s"
  by (simp_all add: new_ElemVal_def)

lemma chain_nth:
  "chain h p as q \<Longrightarrow> i < length as \<Longrightarrow> nxt h (as ! i) = Some ((as @ [q]) ! Suc i)"
proof (induction as arbitrary: p i)
  case Nil
  then show ?case by simp
next
  case (Cons a as)
  show ?case
  proof (cases i)
    case 0
    then show ?thesis using Cons.prems chain_hd[of h a as q] by (cases as) auto
  next
    case (Suc j)
    then show ?thesis using Cons.prems Cons.IH[of a j] by simp
  qed
qed

lemma list_Front_linked:
  assumes L: "linked s as"
  shows "list_Front s = Some (if as = [] then None else Some (hd as))"
proof -
  obtain nr where "elements s (lister s) = Some nr" "e_next nr = Some (hd (as @ [lister s]))"
    using linked_root[OF L] by blast
  moreover have "lister_len s = 0 \<longleftrightarrow> as = []" using L by (simp add: linked_def)
  ultimately show ?thesis by (simp add: list_Front_def)
qed

lemma list_Next_linked:
  assumes L: "linked s as" and i: "i < length as"
  shows "list_Next (Some (as ! i)) s = Some (if Suc i < length as then Some (as ! Suc i) else None)"
proof -
  have c: "chain (elements s) (lister s) as (lister s)" and r: "lister s \<notin> set as"
    using L by (auto simp: linked_def)
  obtain n where n: "elements s (as ! i) = Some n" "e_list n = Some (lister s)"
    using linked_elements[OF L, of "as ! i"] i by auto
  have "nxt (elements s) (as ! i) = Some ((as @ [lister s]) ! Suc i)" by (rule chain_nth[OF c i])
  then have nx: "e_next n = Some ((as @ [lister s]) ! Suc i)" using n by (simp add: nxt_def)
  show ?thesis
  proof (cases "Suc i < length as")
    case True
    then have "(as @ [lister s]) ! Suc i = as ! Suc i" by (simp add: nth_append)
    moreover have "as ! Suc i \<noteq> lister s" using r True by (metis nth_mem)
    ultimately show ?thesis using n nx True by (simp add: list_Next_def)
  next
    case False
    then have "Suc i = length as" using i by simp
    then have "(as @ [lister s]) ! Suc i = lister s" by simp
    then show ?thesis using n nx False by (simp add: list_Next_def)
  qed
qed

lemma First_repr:
  assumes A: "repr s as xs"
  shows "First s = Some (if as = [] then (None, s)
           else (Some \<lparr>elem = Some (as ! 0), ElemValp = brk s\<rparr>,
                 snd (new_ElemVal \<lparr>Key = fst (xs ! 0), Value = snd (xs ! 0)\<rparr> s)))"
proof (cases "as = []")
  case True
  then show ?thesis using A list_Front_linked[of s as] by (simp add: First_def repr_def)
next
  case False
  then have "entry s (as ! 0) = Some \<lparr>Key = fst (xs ! 0), Value = snd (xs ! 0)\<rparr>"
    using repr_entry[OF A, of 0] by simp
  then show ?thesis using False A list_Front_linked[of s as]
    by (simp add: First_def repr_def mk_Element_entry hd_conv_nth)
qed

lemma Next_repr:
  assumes A: "repr s as xs" and i: "i < length as" and e: "elem e = Some (as ! i)"
  shows "Next e s = Some (if Suc i < length as
           then (Some \<lparr>elem = Some (as ! Suc i), ElemValp = brk s\<rparr>,
                 snd (new_ElemVal \<lparr>Key = fst (xs ! Suc i), Value = snd (xs ! Suc i)\<rparr> s))
           else (None, s))"
proof (cases "Suc i < length as")
  case True
  then have "entry s (as ! Suc i) = Some \<lparr>Key = fst (xs ! Suc i), Value = snd (xs ! Suc i)\<rparr>"
    using repr_entry[OF A, of "Suc i"] by simp
  then show ?thesis using True A e list_Next_linked[of s as i] i
    by (simp add: Next_def repr_def mk_Element_entry)
next
  case False
  then show ?thesis using A e list_Next_linked[of s as i] i
    by (simp add: Next_def repr_def)
qed

lemma walk_repr:
  "repr s as xs \<Longrightarrow> i < length as \<Longrightarrow> elem e = Some (as ! i) \<Longrightarrow>
   elemvals s (ElemValp e) = Some ev \<Longrightarrow> length as - i \<le> fuel \<Longrightarrow>
   \<exists>s'. walk fuel (Some e) s = Some ((Key ev, Value ev) # drop (Suc i) xs, s') \<and> repr s' as xs \<and>
        brk s \<le> brk s' \<and> (\<forall>p < brk s. elemvals s' p = elemvals s p)"
proof (induction fuel arbitrary: s i e ev)
  case 0
  then show ?case by simp
next
  case (Suc fuel)
  have len: "length xs = length as" by (rule repr_length[OF Suc.prems(1)])
  show ?case
  proof (cases "Suc i < length as")
    case False
    then have "Next e s = Some (None, s)"
      using Next_repr[OF Suc.prems(1,2,3)] by simp
    moreover have "drop (Suc i) xs = []" using False len by simp
    ultimately show ?thesis using Suc.prems by simp
  next
    case True
    define ev1 :: "'a ElemVal" where "ev1 = \<lparr>Key = fst (xs ! Suc i), Value = snd (xs ! Suc i)\<rparr>"
    define e1 where "e1 = \<lparr>elem = Some (as ! Suc i), ElemValp = brk s\<rparr>"
    define s1 where "s1 = snd (new_ElemVal ev1 s)"
    have nx: "Next e s = Some (Some e1, s1)"
      using Next_repr[OF Suc.prems(1,2,3)] True by (simp add: e1_def s1_def ev1_def)
    have A1: "repr s1 as xs" unfolding s1_def by (rule repr_new_ElemVal[OF Suc.prems(1)])
    have "\<exists>s'. walk fuel (Some e1) s1 = Some ((Key ev1, Value ev1) # drop (Suc (Suc i)) xs, s') \<and>
            repr s' as xs \<and> brk s1 \<le> brk s' \<and> (\<forall>p < brk s1. elemvals s' p = elemvals s1 p)"
    proof (rule Suc.IH[OF A1 True])
      show "elem e1 = Some (as ! Suc i)" by (simp add: e1_def)
      show "elemvals s1 (ElemValp e1) = Some ev1" by (simp add: e1_def s1_def new_ElemVal_frame)
      show "length as - Suc i \<le> fuel" using Suc.prems(5) by simp
    qed
    then obtain s' where w: "walk fuel (Some e1) s1 = Some ((Key ev1, Value ev1) # drop (Suc (Suc i)) xs, s')"
      and A': "repr s' as xs" and b: "brk s1 \<le> brk s'"
      and fr: "\<forall>p < brk s1. elemvals s' p = elemvals s1 p" by blast
    have "(Key ev1, Value ev1) # drop (Suc (Suc i)) xs = drop (Suc i) xs"
      using True len by (simp add: ev1_def Cons_nth_drop_Suc)
    then have w': "walk (Suc fuel) (Some e) s = Some ((Key ev, Value ev) # drop (Suc i) xs, s')"
      using w nx Suc.prems(4) by simp
    have b1: "brk s1 = Suc (brk s)" by (simp add: s1_def new_ElemVal_frame)
    have "elemvals s' p = elemvals s p" if "p < brk s" for p
    proof -
      have "elemvals s' p = elemvals s1 p" using fr that b1 by simp
      also have "\<dots> = elemvals s p" using that by (simp add: s1_def new_ElemVal_frame)
      finally show ?thesis .
    qed
    then show ?thesis using w' A' b b1 by auto
  qed
qed

lemma iterate_repr:
  assumes A: "repr s as xs" and F: "length as \<le> fuel"
  shows "\<exists>s'. iterate fuel s = Some (xs, s') \<and> repr s' as xs"
proof (cases "as = []")
  case True
  then have "xs = []" using repr_length[OF A] by simp
  then show ?thesis using True A First_repr[OF A] by (auto simp: iterate_def)
next
  case False
  have len: "length xs = length as" by (rule repr_length[OF A])
  define ev0 :: "'a ElemVal" where "ev0 = \<lparr>Key = fst (xs ! 0), Value = snd (xs ! 0)\<rparr>"
  define e0 where "e0 = \<lparr>elem = Some (as ! 0), ElemValp = brk s\<rparr>"
  define s0 where "s0 = snd (new_ElemVal ev0 s)"
  have f: "First s = Some (Some e0, s0)"
    using First_repr[OF A] False by (simp add: e0_def s0_def ev0_def)
  have A0: "repr s0 as xs" unfolding s0_def by (rule repr_new_ElemVal[OF A])
  have "\<exists>s'. walk fuel (Some e0) s0 = Some ((Key ev0, Value ev0) # drop (Suc 0) xs, s') \<and>
          repr s' as xs \<and> brk s0 \<le> brk s' \<and> (\<forall>p < brk s0. elemvals s' p = elemvals s0 p)"
  proof (rule walk_repr[OF A0])
    show "0 < length as" using False by simp
    show "elem e0 = Some (as ! 0)" by (simp add: e0_def)
    show "elemvals s0 (ElemValp e0) = Some ev0" by (simp add: e0_def s0_def new_ElemVal_frame)
    show "length as - 0 \<le> fuel" using F by simp
  qed
  moreover have "(Key ev0, Value ev0) # drop (Suc 0) xs = xs"
    using False len by (cases xs) (auto simp: ev0_def)
  ultimately show ?thesis using f by (auto simp: iterate_def)
qed

lemma walk_short:
  "repr s as xs \<Longrightarrow> i < length as \<Longrightarrow> elem e = Some (as ! i) \<Longrightarrow>
   fuel < length as - i \<Longrightarrow> walk fuel (Some e) s = None"
proof (induction fuel arbitrary: s i e)
  case 0
  then show ?case by simp
next
  case (Suc fuel)
  then have T: "Suc i < length as" by simp
  define ev1 :: "'a ElemVal" where "ev1 = \<lparr>Key = fst (xs ! Suc i), Value = snd (xs ! Suc i)\<rparr>"
  define e1 where "e1 = \<lparr>elem = Some (as ! Suc i), ElemValp = brk s\<rparr>"
  define s1 where "s1 = snd (new_ElemVal ev1 s)"
  have nx: "Next e s = Some (Some e1, s1)"
    using Next_repr[OF Suc.prems(1,2,3)] T by (simp add: e1_def s1_def ev1_def)
  have A1: "repr s1 as xs" unfolding s1_def by (rule repr_new_ElemVal[OF Suc.prems(1)])
  have "walk fuel (Some e1) s1 = None"
    by (rule Suc.IH[OF A1 T]) (use Suc.prems(4) in \<open>auto simp: e1_def\<close>)
  then show ?case using nx by (simp split: Option.bind_split)
qed

lemma iterate_short:
  assumes A: "repr s as xs" and F: "fuel < length as"
  shows "iterate fuel s = None"
proof -
  have ne: "as \<noteq> []" using F by auto
  define ev0 :: "'a ElemVal" where "ev0 = \<lparr>Key = fst (xs ! 0), Value = snd (xs ! 0)\<rparr>"
  define e0 where "e0 = \<lparr>elem = Some (as ! 0), ElemValp = brk s\<rparr>"
  define s0 where "s0 = snd (new_ElemVal ev0 s)"
  have f: "First s = Some (Some e0, s0)"
    using First_repr[OF A] ne by (simp add: e0_def s0_def ev0_def)
  have A0: "repr s0 as xs" unfolding s0_def by (rule repr_new_ElemVal[OF A])
  have "walk fuel (Some e0) s0 = None"
    by (rule walk_short[OF A0, of 0]) (use F in \<open>auto simp: e0_def\<close>)
  then show ?thesis using f by (simp add: iterate_def)
qed

section \<open>The code refines the container of the specification\<close>

text \<open>\<open>New\<close> is \<^verbatim>\<open>Init\<close> applied to a zeroed list, as in \<^verbatim>\<open>list.New()\<close>.\<close>

lemma New_Init:
  "list_Init \<lparr>mapper = Map.empty, lister = 0, lister_len = 0,
      elements = [0 \<mapsto> \<lparr>e_next = None, e_prev = None, e_list = None, e_Value = None\<rparr>],
      elemvals = Map.empty, brk = 1\<rparr> = Some (New :: 'v OrderedMap)"
  by (simp add: list_Init_def store_def New_def)

lemma repr_New: "repr New [] []"
  by (simp add: repr_def linked_def in_sync_def below_brk_def contents_def New_def nxt_def prv_def)

lemma spec_Set_absent: "k \<notin> set (map fst xs) \<Longrightarrow> spec_Set k v xs = xs @ [(k, v)]"
  by (simp add: spec_Set_def)

lemma spec_Set_present:
  "k \<in> set (map fst xs) \<Longrightarrow>
   spec_Set k v xs = map (\<lambda>(k', v'). if k' = k then (k', v) else (k', v')) xs"
  by (simp add: spec_Set_def)

lemma spec_Delete_absent: "k \<notin> set (map fst xs) \<Longrightarrow> spec_Delete k xs = xs"
  by (force simp: spec_Delete_def filter_id_conv)

lemma repr_mapper_None:
  assumes "repr s as xs"
  shows "mapper s k = None \<longleftrightarrow> k \<notin> set (map fst xs)"
proof -
  have "mapper s k = None \<longleftrightarrow> k \<notin> dom (mapper s)" by (simp add: dom_def)
  then show ?thesis by (simp only: repr_dom[OF assms])
qed

lemma off_list_new_ElemVal:
  assumes "off_list s as q"
  shows "off_list (snd (new_ElemVal ev s)) as q \<and> elemvals (snd (new_ElemVal ev s)) q = elemvals s q"
  using assms by (auto simp: off_list_def new_ElemVal_def valp_def)

lemma exec_step:
  assumes A: "repr s as xs" and E: "exec x s = Some s'"
  shows "\<exists>as'. repr s' as' (spec_exec x xs) \<and>
           (\<forall>q. off_list s as q \<longrightarrow> off_list s' as' q \<and> elemvals s' q = elemvals s q)"
proof (cases x)
  case (OpSet k v)
  show ?thesis
  proof (cases "mapper s k")
    case None
    then have sp: "spec_exec x xs = xs @ [(k, v)]"
      using repr_mapper_None[OF A] OpSet by (simp add: spec_Set_absent)
    from Set_absent[OF A None, of v] E OpSet
    have *: "repr s' (as @ [Suc (brk s)]) (xs @ [(k, v)])"
      "elemvals s' = (elemvals s)(brk s \<mapsto> \<lparr>Key = k, Value = v\<rparr>)"
      "brk s' = Suc (Suc (brk s))" "valp s' (Suc (brk s)) = Some (brk s)"
      "\<forall>a \<in> set as. valp s' a = valp s a"
      by auto
    have "off_list s' (as @ [Suc (brk s)]) q \<and> elemvals s' q = elemvals s q" if "off_list s as q" for q
      using that * by (auto simp: off_list_def)
    then show ?thesis
      by (intro exI[of _ "as @ [Suc (brk s)]"]) (simp add: *(1) sp)
  next
    case (Some a)
    then have "k \<in> set (map fst xs)" using repr_mapper_None[OF A, of k] by auto
    then have sp: "spec_exec x xs = map (\<lambda>(k', v'). if k' = k then (k', v) else (k', v')) xs"
      using OpSet by (simp add: spec_Set_present)
    from Set_present[OF A Some, of v] E OpSet
    obtain p where *: "repr s' as (map (\<lambda>(k', v'). if k' = k then (k', v) else (k', v')) xs)"
      "valp s a = Some p" "s' = s\<lparr>elemvals := (elemvals s)(p \<mapsto> \<lparr>Key = k, Value = v\<rparr>)\<rparr>"
      by auto
    have a: "a \<in> set as" using repr_mapper_entry[OF A Some] by simp
    have "off_list s' as q \<and> elemvals s' q = elemvals s q" if "off_list s as q" for q
    proof -
      have "q \<noteq> p" using that a *(2) by (auto simp: off_list_def)
      then show ?thesis using that by (auto simp: off_list_def *(3) valp_def)
    qed
    then show ?thesis
      by (intro exI[of _ as]) (simp add: *(1) sp)
  qed
next
  case (OpDelete k)
  show ?thesis
  proof (cases "mapper s k")
    case None
    then have "spec_exec x xs = xs"
      using repr_mapper_None[OF A] OpDelete by (simp add: spec_Delete_absent)
    moreover have "s' = s" using E OpDelete None by (simp add: Delete_absent)
    ultimately show ?thesis using A by auto
  next
    case (Some a)
    from Delete_present[OF A Some] E OpDelete
    have *: "repr s' (remove1 a as) (filter (\<lambda>(k', v'). k' \<noteq> k) xs)" "brk s' = brk s"
      "elemvals s' = elemvals s" "\<forall>b. valp s' b = valp s b"
      by auto
    have "off_list s' (remove1 a as) q \<and> elemvals s' q = elemvals s q" if "off_list s as q" for q
      using that * by (auto simp: off_list_def dest: notin_set_remove1)
    then show ?thesis
      by (intro exI[of _ "remove1 a as"]) (simp add: *(1) OpDelete spec_Delete_def)
  qed
next
  case OpFirst
  then have "s' = s \<or> (\<exists>ev. s' = snd (new_ElemVal ev s))"
    using E First_repr[OF A] by (auto split: if_splits)
  then show ?thesis
    using A repr_new_ElemVal[OF A] off_list_new_ElemVal[of s as] OpFirst by auto
next
  case (OpNext e)
  then obtain c where "Next e s = Some (c, s')" using E by auto
  then have "s' = s \<or> (\<exists>ev. s' = snd (new_ElemVal ev s))"
    by (auto simp: Next_def mk_Element_entry split: Option.bind_splits option.splits)
  then show ?thesis
    using A repr_new_ElemVal[OF A] off_list_new_ElemVal[of s as] OpNext by auto
qed

lemma run_step:
  "repr s as xs \<Longrightarrow> run ops s = Some s' \<Longrightarrow>
   \<exists>as'. repr s' as' (spec_run ops xs) \<and>
     (\<forall>q. off_list s as q \<longrightarrow> off_list s' as' q \<and> elemvals s' q = elemvals s q)"
proof (induction ops arbitrary: s as xs)
  case Nil
  then show ?case by auto
next
  case (Cons x ops)
  then obtain s1 where x: "exec x s = Some s1" and r: "run ops s1 = Some s'"
    by (auto split: option.splits)
  from exec_step[OF Cons.prems(1) x] obtain as1 where 1: "repr s1 as1 (spec_exec x xs)"
    and f1: "\<forall>q. off_list s as q \<longrightarrow> off_list s1 as1 q \<and> elemvals s1 q = elemvals s q" by blast
  from Cons.IH[OF 1 r] obtain as' where 2: "repr s' as' (spec_run ops (spec_exec x xs))"
    and f2: "\<forall>q. off_list s1 as1 q \<longrightarrow> off_list s' as' q \<and> elemvals s' q = elemvals s1 q" by blast
  have "\<forall>q. off_list s as q \<longrightarrow> off_list s' as' q \<and> elemvals s' q = elemvals s q"
    using f1 f2 by auto
  then show ?case using 2 by auto
qed

lemma run_repr: "run ops New = Some s \<Longrightarrow> \<exists>as. repr s as (spec_run ops [])"
  using run_step[OF repr_New] by blast

lemma exec_total:
  assumes A: "repr s as xs" and U: "is_update x"
  shows "\<exists>s'. exec x s = Some s'"
proof (cases x)
  case (OpSet k v)
  then show ?thesis using Set_absent[OF A, of k v] Set_present[OF A, of k _ v]
    by (cases "mapper s k") auto
next
  case (OpDelete k)
  then show ?thesis using Delete_present[OF A, of k] Delete_absent[of s k]
    by (cases "mapper s k") auto
qed (use U in auto)

lemma run_total:
  "repr s as xs \<Longrightarrow> list_all is_update ops \<Longrightarrow> \<exists>s'. run ops s = Some s'"
proof (induction ops arbitrary: s as xs)
  case Nil
  then show ?case by simp
next
  case (Cons x ops)
  then obtain s1 where x: "exec x s = Some s1" using exec_total[of s as xs x] by auto
  from exec_step[OF Cons.prems(1) x] obtain as1 where "repr s1 as1 (spec_exec x xs)" by blast
  from Cons.IH[OF this] Cons.prems(2) x show ?case by auto
qed

lemma spec_keys_step:
  "set (map fst (spec_exec x xs)) = keys_step x (set (map fst xs))"
proof (cases x)
  case (OpSet k v)
  have "fst ` (\<lambda>(k', v'). if k' = k then (k', v) else (k', v')) ` set xs = fst ` set xs"
    by (force simp: image_iff split: if_splits)
  then show ?thesis using OpSet by (auto simp: spec_Set_def image_image simp del: image_image)
next
  case (OpDelete k)
  then show ?thesis by (auto simp: spec_Delete_def image_iff)
qed auto

lemma spec_run_keys:
  "set (map fst (spec_run ops xs)) = foldl (\<lambda>K x. keys_step x K) (set (map fst xs)) ops"
proof (induction ops arbitrary: xs)
  case Nil
  then show ?case by simp
next
  case (Cons x ops)
  show ?case using Cons.IH[of "spec_exec x xs"] by (simp add: spec_keys_step del: set_map)
qed

lemma present_keys_spec: "present_keys ops = set (map fst (spec_run ops []))"
  unfolding present_keys_def spec_run_keys by simp

lemma repr_Len: "repr s as xs \<Longrightarrow> Len s = int (length xs)"
  using repr_length[of s as xs] by (simp add: Len_def list_Len_def repr_def linked_def)

lemma iterate_repr_iff:
  assumes A: "repr s as xs" and I: "iterate fuel s = Some (out, s1)"
  shows "out = xs \<and> length xs \<le> fuel \<and> repr s1 as xs"
proof -
  have len: "length xs = length as" by (rule repr_length[OF A])
  have "\<not> fuel < length as" using iterate_short[OF A, of fuel] I by auto
  then have F: "length as \<le> fuel" by simp
  from iterate_repr[OF A F] I show ?thesis using F len by auto
qed

lemma spec_Set_keys:
  "map fst (spec_Set k v xs) = (if k \<in> set (map fst xs) then map fst xs else map fst xs @ [k])"
  by (auto simp: spec_Set_def split_def intro!: map_idI)

lemma spec_run_append: "spec_run (a @ b) xs = spec_run b (spec_run a xs)"
  by (induction a arbitrary: xs) auto

lemma spec_run_inserts:
  "distinct (map fst xs @ map fst kvs) \<Longrightarrow>
   map fst (spec_run (map (\<lambda>(k, v). OpSet k v) kvs) xs) = map fst xs @ map fst kvs"
proof (induction kvs arbitrary: xs)
  case Nil
  then show ?case by simp
next
  case (Cons kv kvs)
  obtain k v where kv: "kv = (k, v)" by (cases kv)
  have k: "k \<notin> set (map fst xs)" using Cons.prems kv by auto
  have "map fst (spec_Set k v xs) = map fst xs @ [k]" using k by (simp only: spec_Set_keys if_False)
  moreover have "distinct (map fst (spec_Set k v xs) @ map fst kvs)"
    using Cons.prems kv k by (simp only: \<open>map fst (spec_Set k v xs) = map fst xs @ [k]\<close>) auto
  ultimately show ?case using Cons.IH[of "spec_Set k v xs"] kv by simp
qed

lemma spec_run_updates:
  "set (map fst ups) \<subseteq> set (map fst xs) \<Longrightarrow>
   map fst (spec_run (map (\<lambda>(k, v). OpSet k v) ups) xs) = map fst xs"
proof (induction ups arbitrary: xs)
  case Nil
  then show ?case by simp
next
  case (Cons kv ups)
  obtain k v where kv: "kv = (k, v)" by (cases kv)
  have k: "k \<in> set (map fst xs)" using Cons.prems kv by auto
  have 1: "map fst (spec_Set k v xs) = map fst xs" using k by (simp only: spec_Set_keys if_True)
  have "set (map fst ups) \<subseteq> set (map fst (spec_Set k v xs))"
    using Cons.prems unfolding 1 by simp
  from Cons.IH[OF this] show ?case using kv 1 by simp
qed

lemma list_all_update_Sets: "list_all is_update (map (\<lambda>(k, v). OpSet k v) kvs)"
  by (induction kvs) auto

lemma repr_Get_present:
  assumes A: "repr s as xs" and M: "(k, v) \<in> set xs"
  shows "Get k s = Some (v, True)"
proof -
  have "map_of xs k = Some v" using repr_distinct[OF A] M by simp
  then show ?thesis by (simp add: Get_repr[OF A])
qed

lemma Get_True_mapper: "Get k s = Some (v, True) \<Longrightarrow> mapper s k \<noteq> None"
  by (cases "mapper s k") (auto simp: Get_def)

lemma repr_valp_below:
  assumes A: "repr s as xs" and a: "a \<in> set as"
  shows "\<exists>p. valp s a = Some p \<and> p < brk s"
proof -
  obtain ev where "entry s a = Some ev" using repr_entry_ex[OF A a] by blast
  then obtain p where p: "valp s a = Some p" "elemvals s p = Some ev" by (auto dest: entry_SomeD)
  have "below_brk s" using A by (simp add: repr_def)
  from below_brkD(2)[OF this p(2)] p(1) show ?thesis by simp
qed

lemma fresh_off_list:
  assumes A: "repr s as xs"
  shows "off_list (snd (new_ElemVal ev s)) as (brk s)"
proof -
  have "valp (snd (new_ElemVal ev s)) a \<noteq> Some (brk s)" if "a \<in> set as" for a
    using repr_valp_below[OF A that] by (auto simp: valp_def new_ElemVal_def)
  then show ?thesis by (simp add: off_list_def new_ElemVal_frame)
qed

lemma cursor_at_repr:
  assumes A: "repr s as xs"
  shows "\<exists>c s1. cursor_at i s = Some (c, s1) \<and> repr s1 as xs \<and>
           (\<forall>q. off_list s as q \<longrightarrow> off_list s1 as q \<and> elemvals s1 q = elemvals s q) \<and>
           (if i < length as
            then \<exists>e. c = Some e \<and> elem e = Some (as ! i) \<and> off_list s1 as (ElemValp e) \<and>
                   elemvals s1 (ElemValp e) = Some \<lparr>Key = fst (xs ! i), Value = snd (xs ! i)\<rparr>
            else c = None)"
proof (induction i)
  case 0
  show ?case
  proof (cases "as = []")
    case True
    then show ?thesis using First_repr[OF A] A by simp
  next
    case False
    define ev :: "'a ElemVal" where "ev = \<lparr>Key = fst (xs ! 0), Value = snd (xs ! 0)\<rparr>"
    define s1 where "s1 = snd (new_ElemVal ev s)"
    define e where "e = \<lparr>elem = Some (as ! 0), ElemValp = brk s\<rparr>"
    have f: "cursor_at 0 s = Some (Some e, s1)"
      using First_repr[OF A] False by (simp add: e_def s1_def ev_def)
    have A1: "repr s1 as xs" unfolding s1_def by (rule repr_new_ElemVal[OF A])
    have fr: "\<forall>q. off_list s as q \<longrightarrow> off_list s1 as q \<and> elemvals s1 q = elemvals s q"
      unfolding s1_def using off_list_new_ElemVal by blast
    have o: "off_list s1 as (ElemValp e)"
      unfolding s1_def e_def using fresh_off_list[OF A] by simp
    have v: "elemvals s1 (ElemValp e) = Some ev" by (simp add: s1_def e_def new_ElemVal_frame)
    show ?thesis
      using f A1 fr o v False by (simp add: e_def ev_def)
  qed
next
  case (Suc i)
  then obtain c s1 where c: "cursor_at i s = Some (c, s1)" and A1: "repr s1 as xs"
    and fr1: "\<forall>q. off_list s as q \<longrightarrow> off_list s1 as q \<and> elemvals s1 q = elemvals s q"
    and pos: "if i < length as
            then \<exists>e. c = Some e \<and> elem e = Some (as ! i) \<and> off_list s1 as (ElemValp e) \<and>
                   elemvals s1 (ElemValp e) = Some \<lparr>Key = fst (xs ! i), Value = snd (xs ! i)\<rparr>
            else c = None"
    by blast
  show ?case
  proof (cases "i < length as")
    case False
    then show ?thesis using c A1 fr1 pos by simp
  next
    case True
    then obtain e where e: "c = Some e" "elem e = Some (as ! i)" using pos by auto
    show ?thesis
    proof (cases "Suc i < length as")
      case False
      then have "Next e s1 = Some (None, s1)" using Next_repr[OF A1 True e(2)] by simp
      then show ?thesis using c e A1 fr1 False by simp
    next
      case T: True
      define ev :: "'a ElemVal" where "ev = \<lparr>Key = fst (xs ! Suc i), Value = snd (xs ! Suc i)\<rparr>"
      define s2 where "s2 = snd (new_ElemVal ev s1)"
      define e' where "e' = \<lparr>elem = Some (as ! Suc i), ElemValp = brk s1\<rparr>"
      have n: "Next e s1 = Some (Some e', s2)"
        using Next_repr[OF A1 True e(2)] T by (simp add: e'_def s2_def ev_def)
      have A2: "repr s2 as xs" unfolding s2_def by (rule repr_new_ElemVal[OF A1])
      have fr: "\<forall>q. off_list s as q \<longrightarrow> off_list s2 as q \<and> elemvals s2 q = elemvals s q"
        unfolding s2_def using fr1 off_list_new_ElemVal[of s1 as] by auto
      have o: "off_list s2 as (ElemValp e')"
        unfolding s2_def e'_def using fresh_off_list[OF A1] by simp
      have v: "elemvals s2 (ElemValp e') = Some ev" by (simp add: s2_def e'_def new_ElemVal_frame)
      show ?thesis
        using c e n A2 fr o v T by (simp add: e'_def ev_def)
    qed
  qed
qed

lemma remove1_nth:
  "distinct as \<Longrightarrow> i < length as \<Longrightarrow> remove1 (as ! i) as = take i as @ drop (Suc i) as"
proof -
  assume d: "distinct as" and i: "i < length as"
  have as: "as = take i as @ as ! i # drop (Suc i) as" using i by (simp add: id_take_nth_drop)
  from d have "distinct (take i as @ as ! i # drop (Suc i) as)"
    by (simp only: id_take_nth_drop[OF i, symmetric])
  then have "as ! i \<notin> set (take i as)" by simp
  then have "remove1 (as ! i) (take i as @ as ! i # drop (Suc i) as) = take i as @ drop (Suc i) as"
    by (simp add: remove1_append)
  then show ?thesis using as by simp
qed

lemma filter_key_nth:
  assumes "distinct (map fst xs)" "i < length xs"
  shows "filter (\<lambda>(k', v'). k' \<noteq> fst (xs ! i)) xs = take i xs @ drop (Suc i) xs"
proof -
  have "distinct (map fst (take i xs @ xs ! i # drop (Suc i) xs))"
    using assms(1) by (simp only: id_take_nth_drop[OF assms(2), symmetric])
  from filter_key_middle[OF this refl]
  show ?thesis by (simp only: id_take_nth_drop[OF assms(2), symmetric])
qed

lemma list_Next_dead:
  assumes L: "linked s as" and n: "elements s a = Some n" and a: "a \<notin> set as"
  shows "list_Next (Some a) s = Some None"
proof -
  have "e_list n = None" using L n a by (simp add: linked_def)
  then show ?thesis using n by (simp add: list_Next_def)
qed

lemma Next_dead:
  assumes A: "repr s as xs" and e: "elem e = Some a" and n: "elements s a \<noteq> None"
    and a: "a \<notin> set as"
  shows "Next e s = Some (None, s)"
proof -
  have L: "linked s as" using A by (simp add: repr_def)
  obtain m where "elements s a = Some m" using n by auto
  from list_Next_dead[OF L this a] show ?thesis using e by (simp add: Next_def)
qed

lemma Next_Some_live:
  assumes A: "repr s as xs" and N: "Next e0 s = Some (Some e, s1)"
  shows "\<exists>i. Suc i < length as \<and> elem e0 = Some (as ! i) \<and>
           e = \<lparr>elem = Some (as ! Suc i), ElemValp = brk s\<rparr> \<and>
           s1 = snd (new_ElemVal \<lparr>Key = fst (xs ! Suc i), Value = snd (xs ! Suc i)\<rparr> s)"
proof -
  obtain a where a: "elem e0 = Some a" and el: "elements s a \<noteq> None"
    using N by (cases "elem e0") (auto simp: Next_def list_Next_def load_def split: Option.bind_splits)
  have "a \<in> set as" using Next_dead[OF A a el] N by auto
  then obtain i where i: "i < length as" "as ! i = a" by (auto simp: in_set_conv_nth)
  from Next_repr[OF A i(1), of e0] a i(2) N show ?thesis
    by (auto split: if_splits)
qed

lemma Get_off_list:
  assumes A: "repr s as xs" and O: "off_list s as q"
  shows "Get k (s\<lparr>elemvals := (elemvals s)(q \<mapsto> z)\<rparr>) = Get k s"
proof (cases "mapper s k")
  case None
  then show ?thesis by (simp add: Get_def)
next
  case (Some a)
  obtain p ev where a: "a \<in> set as" and n: "elements s a \<noteq> None" and p: "valp s a = Some p"
    and ev: "elemvals s p = Some ev"
    using repr_mapper_entry[OF A Some] by auto
  have "p \<noteq> q" using O a p by (auto simp: off_list_def)
  then show ?thesis using Some n p ev
    by (auto simp: Get_def deref_ElemVal_def valp_def split: option.splits)
qed

lemma last_nth_distinct:
  assumes "distinct as" "i < length as"
  shows "as ! i = last as \<longleftrightarrow> Suc i = length as"
proof -
  have ne: "as \<noteq> []" using assms(2) by auto
  have "last as = as ! (length as - 1)" using ne by (rule last_conv_nth)
  moreover have "length as - 1 < length as" using ne by simp
  ultimately have "as ! i = last as \<longleftrightarrow> i = length as - 1"
    using assms by (simp add: nth_eq_iff_index_eq)
  then show ?thesis using assms(2) by auto
qed

section \<open>The claims\<close>

text \<open>
  Throughout, a map is a state reached from \<open>New\<close> by a sequence of calls
  (\<open>run ops New = Some s\<close>); \<open>present_keys ops\<close> are the keys that were set and not
  deleted since.
\<close>

text \<open>
  Claim C1: for every sequence \<open>kvs\<close> of \<open>Set\<close> calls with distinct keys on a new map,
  followed by any \<open>Set\<close> calls \<open>ups\<close> on keys among them, forward iteration with \<open>First\<close>
  and \<open>Next\<close> yields exactly the keys of \<open>kvs\<close> in insertion order; and a \<open>Set\<close> with an
  absent key then appends its entry at the tail of what iteration yields.
\<close>

theorem C1_insertion_order:
  assumes "distinct (map fst kvs)" and "set (map fst ups) \<subseteq> set (map fst kvs)"
    and "length kvs \<le> fuel"
  shows "\<exists>s out s'. run (map (\<lambda>(k, v). OpSet k v) (kvs @ ups)) New = Some s \<and>
           iterate fuel s = Some (out, s') \<and> map fst out = map fst kvs \<and>
           (\<forall>k v. k \<notin> set (map fst kvs) \<longrightarrow>
             (\<exists>t t'. Set k v s = Some t \<and> iterate (Suc fuel) t = Some (out @ [(k, v)], t')))"
proof -
  define ops :: "'a op list" where "ops = map (\<lambda>(k, v). OpSet k v) (kvs @ ups)"
  obtain s where s: "run ops New = Some s"
    using run_total[OF repr_New, of ops] list_all_update_Sets[of "kvs @ ups"]
    by (auto simp: ops_def)
  obtain as where A: "repr s as (spec_run ops [])" using run_repr[OF s] by blast
  define xs where "xs = spec_run ops []"
  have "map fst (spec_run (map (\<lambda>(k, v). OpSet k v) kvs) []) = map fst kvs"
    using spec_run_inserts[of "[]" kvs] assms(1) by simp
  then have keys: "map fst xs = map fst kvs"
    using spec_run_updates[of ups "spec_run (map (\<lambda>(k, v). OpSet k v) kvs) []"] assms(2)
    by (simp add: xs_def ops_def spec_run_append)
  have len: "length as = length kvs"
    using repr_length[OF A] keys by (metis xs_def length_map)
  obtain s' where it: "iterate fuel s = Some (xs, s')"
    using iterate_repr[OF A, of fuel] assms(3) len by (auto simp: xs_def)
  have tail: "\<exists>t t'. Set k v s = Some t \<and> iterate (Suc fuel) t = Some (xs @ [(k, v)], t')"
    if k: "k \<notin> set (map fst kvs)" for k v
  proof -
    have "k \<notin> set (map fst (spec_run ops []))" using k keys unfolding xs_def by metis
    then have "mapper s k = None" using repr_mapper_None[OF A, of k] by blast
    from Set_absent[OF A this, of v] obtain t where t: "Set k v s = Some t"
      and T: "repr t (as @ [Suc (brk s)]) (xs @ [(k, v)])" by (auto simp: xs_def)
    from iterate_repr[OF T, of "Suc fuel"] assms(3) len t show ?thesis by auto
  qed
  show ?thesis
    using s it keys tail unfolding ops_def by blast
qed

theorem C1_insertion_order_witness:
  "\<exists>s out s'.
     run [OpSet ''a'' (Some (1::nat)), OpSet ''b'' (Some 2), OpSet ''c'' (Some 3), OpSet ''a'' (Some 5)]
       New = Some s \<and>
     iterate 3 s = Some (out, s') \<and> map fst out = [''a'', ''b'', ''c''] \<and>
     (\<exists>t t'. Set ''d'' (Some 4) s = Some t \<and> iterate 4 t = Some (out @ [(''d'', Some 4)], t'))"
proof -
  have 1: "distinct (map fst [(''a'', Some (1::nat)), (''b'', Some 2), (''c'', Some 3)])" by simp
  have 2: "set (map fst [(''a'', Some (5::nat))])
           \<subseteq> set (map fst [(''a'', Some (1::nat)), (''b'', Some 2), (''c'', Some 3)])" by simp
  have 3: "length [(''a'', Some (1::nat)), (''b'', Some 2), (''c'', Some 3)] \<le> 3" by simp
  have 4: "''d'' \<notin> set (map fst [(''a'', Some (1::nat)), (''b'', Some 2), (''c'', Some 3)])" by simp
  from C1_insertion_order[OF 1 2 3] obtain s out s' where
    "run (map (\<lambda>(k, v). OpSet k v)
        ([(''a'', Some (1::nat)), (''b'', Some 2), (''c'', Some 3)] @ [(''a'', Some 5)])) New = Some s"
    "iterate 3 s = Some (out, s')"
    "map fst out = map fst [(''a'', Some (1::nat)), (''b'', Some 2), (''c'', Some 3)]"
    "\<forall>k v. k \<notin> set (map fst [(''a'', Some (1::nat)), (''b'', Some 2), (''c'', Some 3)]) \<longrightarrow>
       (\<exists>t t'. Set k v s = Some t \<and> iterate (Suc 3) t = Some (out @ [(k, v)], t'))"
    by blast
  then show ?thesis using 4 by (intro exI[of _ s] exI[of _ out] exI[of _ s']) (simp add: eval_nat_numeral)
qed

text \<open>
  Claim C2: after every sequence of \<open>Set\<close> and \<open>Delete\<close> calls on a new map, \<open>Len\<close> is the
  number of distinct keys present, the index holds exactly these keys, and the index and
  the sequence are in sync (\<open>linked\<close>, \<open>in_sync\<close>): iteration yields each key of the
  index exactly once, with the value \<open>Get\<close> returns for it.
\<close>

theorem C2_len_and_sync:
  assumes "list_all is_update ops"
  shows "\<exists>s as out s'. run ops New = Some s \<and>
           Len s = int (card (present_keys ops)) \<and> dom (mapper s) = present_keys ops \<and>
           linked s as \<and> in_sync s as \<and>
           iterate (card (present_keys ops)) s = Some (out, s') \<and>
           distinct (map fst out) \<and> set (map fst out) = dom (mapper s) \<and>
           (\<forall>(k, v) \<in> set out. Get k s = Some (v, True))"
proof -
  obtain s where s: "run ops New = Some s"
    using run_total[OF repr_New assms] by blast
  define xs where "xs = spec_run ops []"
  obtain as where A: "repr s as xs" using run_repr[OF s] by (auto simp: xs_def)
  have d: "distinct (map fst xs)" by (rule repr_distinct[OF A])
  have pk: "present_keys ops = set (map fst xs)" by (simp only: present_keys_spec xs_def)
  have "card (set (map fst xs)) = length (map fst xs)" using d by (rule distinct_card)
  then have c: "card (present_keys ops) = length xs" unfolding pk by simp
  have len: "Len s = int (card (present_keys ops))" using repr_Len[OF A] c by simp
  have dm: "dom (mapper s) = present_keys ops" unfolding pk by (rule repr_dom[OF A])
  have "length as \<le> card (present_keys ops)" using repr_length[OF A] c by simp
  from iterate_repr[OF A this] obtain s' where it: "iterate (card (present_keys ops)) s = Some (xs, s')"
    by blast
  have g: "\<forall>(k, v) \<in> set xs. Get k s = Some (v, True)"
    using repr_Get_present[OF A] by auto
  have L: "linked s as" and S: "in_sync s as" using A by (auto simp: repr_def)
  have "set (map fst xs) = dom (mapper s)" unfolding dm pk ..
  then show ?thesis
    using s len dm L S it d g by blast
qed

theorem C2_len_and_sync_witness:
  "\<exists>s as out s'.
     run [OpSet ''a'' (Some (1::nat)), OpSet ''b'' (Some 2), OpDelete ''a'', OpSet ''b'' (Some 3),
          OpDelete ''z''] New = Some s \<and>
     Len s = 1 \<and> dom (mapper s) = {''b''} \<and> linked s as \<and> in_sync s as \<and>
     iterate 1 s = Some (out, s') \<and> distinct (map fst out) \<and> set (map fst out) = dom (mapper s)"
proof -
  define ops where "ops = [OpSet ''a'' (Some (1::nat)), OpSet ''b'' (Some 2), OpDelete ''a'',
    OpSet ''b'' (Some 3), OpDelete ''z'']"
  have u: "list_all is_update ops" by (simp add: ops_def)
  have pk: "present_keys ops = {''b''}" by (auto simp: ops_def present_keys_def)
  have c: "card {''b''} = 1" by simp
  from C2_len_and_sync[OF u] obtain s as out s' where
    "run ops New = Some s" "Len s = int (card (present_keys ops))"
    "dom (mapper s) = present_keys ops" "linked s as" "in_sync s as"
    "iterate (card (present_keys ops)) s = Some (out, s')"
    "distinct (map fst out)" "set (map fst out) = dom (mapper s)"
    by blast
  then show ?thesis
    unfolding pk c unfolding ops_def
    by (intro exI[of _ s] exI[of _ as] exI[of _ out] exI[of _ s']) simp
qed

text \<open>
  Claim C3: for every map and every key \<open>k\<close> present in it, \<open>Set k v2\<close> changes only the
  stored value: \<open>Get k\<close> then returns \<open>v2\<close> and \<open>True\<close>, \<open>Len\<close> is unchanged, the index
  and the list elements are unchanged, and iteration yields the same entries in the
  same order, but for the value of \<open>k\<close>.
\<close>

theorem C3_Set_present_updates_value:
  assumes "run ops New = Some s" and "Get k s = Some (v1, True)"
    and "iterate fuel s = Some (out, s1)"
  shows "\<exists>s' s2. Set k v2 s = Some s' \<and> Get k s' = Some (v2, True) \<and> Len s' = Len s \<and>
           iterate fuel s' =
             Some (map (\<lambda>(k', v'). if k' = k then (k', v2) else (k', v')) out, s2) \<and>
           mapper s' = mapper s \<and> elements s' = elements s"
proof -
  define xs where "xs = spec_run ops []"
  obtain as where A: "repr s as xs" using run_repr[OF assms(1)] by (auto simp: xs_def)
  obtain a where a: "mapper s k = Some a" using Get_True_mapper[OF assms(2)] by auto
  have out: "out = xs" and F: "length xs \<le> fuel"
    using iterate_repr_iff[OF A assms(3)] by auto
  define U where "U = (\<lambda>(k', v' :: 'a iface). if k' = k then (k', v2) else (k', v'))"
  from Set_present[OF A a, of v2] obtain s' p where s': "Set k v2 s = Some s'"
    and A': "repr s' as (map U xs)" and p: "valp s a = Some p"
    and eq: "s' = s\<lparr>elemvals := (elemvals s)(p \<mapsto> \<lparr>Key = k, Value = v2\<rparr>)\<rparr>"
    by (auto simp: U_def)
  have "k \<in> set (map fst xs)" using repr_mapper_None[OF A, of k] a by auto
  then obtain v where "(k, v) \<in> set xs" by auto
  then have "(k, v2) \<in> set (map U xs)" by (force simp: U_def)
  then have g: "Get k s' = Some (v2, True)" by (rule repr_Get_present[OF A'])
  have l: "Len s' = Len s" by (simp add: eq Len_def list_Len_def)
  have "length as \<le> fuel" using F repr_length[OF A] by simp
  from iterate_repr[OF A' this] obtain s2 where "iterate fuel s' = Some (map U xs, s2)" by blast
  then show ?thesis
    using s' g l out by (auto simp: U_def eq)
qed

theorem C3_Set_present_updates_value_witness:
  "\<exists>s s1 s' s2.
     run [OpSet ''a'' (Some (1::nat)), OpSet ''b'' (Some 2)] New = Some s \<and>
     Get ''a'' s = Some (Some 1, True) \<and>
     iterate 2 s = Some ([(''a'', Some 1), (''b'', Some 2)], s1) \<and>
     Set ''a'' (Some 7) s = Some s' \<and> Get ''a'' s' = Some (Some 7, True) \<and> Len s' = Len s \<and>
     iterate 2 s' = Some ([(''a'', Some 7), (''b'', Some 2)], s2)"
proof -
  define ops where "ops = [OpSet ''a'' (Some (1::nat)), OpSet ''b'' (Some 2)]"
  obtain s where s: "run ops New = Some s"
    using run_total[OF repr_New, of ops] by (auto simp: ops_def)
  obtain as where A: "repr s as (spec_run ops [])" using run_repr[OF s] by blast
  have xs: "spec_run ops [] = [(''a'', Some 1), (''b'', Some 2)]"
    by (simp add: ops_def spec_Set_def)
  have g: "Get ''a'' s = Some (Some 1, True)"
    using repr_Get_present[OF A, of "''a''" "Some 1"] by (simp add: xs)
  obtain s1 where it: "iterate 2 s = Some ([(''a'', Some 1), (''b'', Some 2)], s1)"
    using iterate_repr[OF A, of 2] repr_length[OF A] by (auto simp: xs)
  from C3_Set_present_updates_value[OF s g it, of "Some 7"] obtain s' s2 where
    "Set ''a'' (Some 7) s = Some s'" "Get ''a'' s' = Some (Some 7, True)" "Len s' = Len s"
    "iterate 2 s' = Some (map (\<lambda>(k', v'). if k' = ''a'' then (k', Some 7) else (k', v'))
        [(''a'', Some (1::nat)), (''b'', Some 2)], s2)"
    by blast
  then show ?thesis
    using s g it unfolding ops_def
    by (intro exI[of _ s] exI[of _ s1] exI[of _ s'] exI[of _ s2]) simp
qed

text \<open>
  Claim C4: when a traversal is at its \<open>i\<close>-th entry (cursor \<open>e\<close>, whose key field reads
  \<open>Key ev\<close>) and the cursor for the next step is taken with \<open>Next\<close> before the current
  key is deleted, the traversal continued from that cursor visits exactly the entries
  after the \<open>i\<close>-th, in order. On the map a, b, c with the cursor at a, it visits b and c.
\<close>

theorem C4_capture_next_then_delete:
  assumes "run ops New = Some s" and "iterate fuel s = Some (out, s0)"
    and "cursor_at i s = Some (Some e, s1)" and "elemvals s1 (ElemValp e) = Some ev"
  shows "\<exists>nx s2 s3 s4. i < length out \<and> (Key ev, Value ev) = out ! i \<and>
           Next e s1 = Some (nx, s2) \<and> Delete (Key ev) s2 = Some s3 \<and>
           walk fuel nx s3 = Some (drop (Suc i) out, s4)"
proof -
  define xs where "xs = spec_run ops []"
  obtain as where A: "repr s as xs" using run_repr[OF assms(1)] by (auto simp: xs_def)
  have out: "out = xs" and F: "length xs \<le> fuel"
    using iterate_repr_iff[OF A assms(2)] by auto
  have len: "length xs = length as" by (rule repr_length[OF A])
  have d: "distinct as" using A by (simp add: repr_def linked_def)
  from cursor_at_repr[OF A, of i] assms(3)
  have A1: "repr s1 as xs" and i: "i < length as" and el: "elem e = Some (as ! i)"
    and ev0: "elemvals s1 (ElemValp e) = Some \<lparr>Key = fst (xs ! i), Value = snd (xs ! i)\<rparr>"
    by (auto split: if_splits)
  have ev: "Key ev = fst (xs ! i)" "Value ev = snd (xs ! i)" using ev0 assms(4) by auto
  define k where "k = fst (xs ! i)"
  define as' where "as' = take i as @ drop (Suc i) as"
  define xs' where "xs' = take i xs @ drop (Suc i) xs"
  have del: "\<exists>s3. Delete k s2 = Some s3 \<and> repr s3 as' xs' \<and> elemvals s3 = elemvals s2"
    if A2: "repr s2 as xs" for s2
  proof -
    have m: "mapper s2 k = Some (as ! i)" using repr_mapper[OF A2, of k "as ! i"] i by (auto simp: k_def)
    have "filter (\<lambda>(k', v'). k' \<noteq> k) xs = xs'"
      unfolding k_def xs'_def using repr_distinct[OF A2] i len by (simp add: filter_key_nth)
    moreover have "remove1 (as ! i) as = as'" unfolding as'_def by (rule remove1_nth[OF d i])
    ultimately show ?thesis using Delete_present[OF A2 m] by auto
  qed
  show ?thesis
  proof (cases "Suc i < length as")
    case False
    then have n: "Next e s1 = Some (None, s1)" using Next_repr[OF A1 i el] by simp
    obtain s3 where s3: "Delete k s1 = Some s3" using del[OF A1] by blast
    have "drop (Suc i) xs = []" using False len by simp
    then show ?thesis using n s3 i len ev by (simp add: out k_def prod_eq_iff)
  next
    case True
    define ev' :: "'a ElemVal" where "ev' = \<lparr>Key = fst (xs ! Suc i), Value = snd (xs ! Suc i)\<rparr>"
    define s2 where "s2 = snd (new_ElemVal ev' s1)"
    define e' where "e' = \<lparr>elem = Some (as ! Suc i), ElemValp = brk s1\<rparr>"
    have n: "Next e s1 = Some (Some e', s2)"
      using Next_repr[OF A1 i el] True by (simp add: e'_def s2_def ev'_def)
    have A2: "repr s2 as xs" unfolding s2_def by (rule repr_new_ElemVal[OF A1])
    obtain s3 where s3: "Delete k s2 = Some s3" and A3: "repr s3 as' xs'"
      and v3: "elemvals s3 = elemvals s2" using del[OF A2] by blast
    have i': "i < length as'" using True by (simp add: as'_def)
    have nth: "as' ! i = as ! Suc i" using True by (simp add: as'_def nth_append)
    have "\<exists>s4. walk fuel (Some e') s3 = Some ((Key ev', Value ev') # drop (Suc i) xs', s4) \<and>
            repr s4 as' xs' \<and> brk s3 \<le> brk s4 \<and> (\<forall>p < brk s3. elemvals s4 p = elemvals s3 p)"
    proof (rule walk_repr[OF A3 i'])
      show "elem e' = Some (as' ! i)" by (simp add: e'_def nth)
      show "elemvals s3 (ElemValp e') = Some ev'" by (simp add: v3 e'_def s2_def new_ElemVal_frame)
      show "length as' - i \<le> fuel" using F len by (simp add: as'_def)
    qed
    then obtain s4 where w: "walk fuel (Some e') s3 = Some ((Key ev', Value ev') # drop (Suc i) xs', s4)"
      by blast
    have "drop (Suc i) xs' = drop (Suc (Suc i)) xs" using True len by (simp add: xs'_def)
    moreover have "(Key ev', Value ev') = xs ! Suc i" by (simp add: ev'_def)
    ultimately have "(Key ev', Value ev') # drop (Suc i) xs' = drop (Suc i) xs"
      using True len by (simp add: Cons_nth_drop_Suc)
    then show ?thesis using n s3 w i len ev by (simp add: out k_def prod_eq_iff)
  qed
qed

theorem C4_capture_next_then_delete_witness:
  "\<exists>s e s1 ev nx s2 s3 s4.
     run [OpSet ''a'' (Some (1::nat)), OpSet ''b'' (Some 2), OpSet ''c'' (Some 3)] New = Some s \<and>
     First s = Some (Some e, s1) \<and> elemvals s1 (ElemValp e) = Some ev \<and> Key ev = ''a'' \<and>
     Next e s1 = Some (nx, s2) \<and> Delete ''a'' s2 = Some s3 \<and>
     walk 3 nx s3 = Some ([(''b'', Some 2), (''c'', Some 3)], s4)"
proof -
  define ops where "ops = [OpSet ''a'' (Some (1::nat)), OpSet ''b'' (Some 2), OpSet ''c'' (Some 3)]"
  obtain s where s: "run ops New = Some s"
    using run_total[OF repr_New, of ops] by (auto simp: ops_def)
  obtain as where A: "repr s as (spec_run ops [])" using run_repr[OF s] by blast
  have xs: "spec_run ops [] = [(''a'', Some 1), (''b'', Some 2), (''c'', Some 3)]"
    by (simp add: ops_def spec_Set_def)
  have len: "length as = 3" using repr_length[OF A] by (simp add: xs)
  obtain s0 where it: "iterate 3 s = Some ([(''a'', Some 1), (''b'', Some 2), (''c'', Some 3)], s0)"
    using iterate_repr[OF A, of 3] len by (auto simp: xs)
  obtain e s1 where c: "cursor_at 0 s = Some (Some e, s1)"
    and v: "elemvals s1 (ElemValp e) = Some \<lparr>Key = ''a'', Value = Some 1\<rparr>"
    using cursor_at_repr[OF A, of 0] len by (auto simp: xs)
  from C4_capture_next_then_delete[OF s it c v] obtain nx s2 s3 s4 where
    "Next e s1 = Some (nx, s2)" "Delete ''a'' s2 = Some s3"
    "walk 3 nx s3 = Some ([(''b'', Some 2), (''c'', Some 3)], s4)"
    by auto
  then show ?thesis
    using s c v unfolding ops_def
    by (intro exI[of _ s] exI[of _ e] exI[of _ s1] exI[of _ "\<lparr>Key = ''a'', Value = Some 1\<rparr>"]
        exI[of _ nx] exI[of _ s2] exI[of _ s3] exI[of _ s4]) simp
qed

text \<open>
  Claim C5: \<open>Delete\<close> of a present key removes exactly that entry from the index and from
  the sequence: a fresh iteration yields the other entries in their old order, \<open>Len\<close>
  drops by one, and \<open>Get\<close> no longer finds the key. For a map that iterates as a, b, c,
  after deleting b the iteration yields a, c and \<open>Len\<close> is 2.
\<close>

theorem C5_Delete_present:
  assumes "run ops New = Some s" and "iterate fuel s = Some (out, s1)"
    and "k \<in> set (map fst out)"
  shows "\<exists>s' s2. Delete k s = Some s' \<and>
           iterate fuel s' = Some (filter (\<lambda>(k', v'). k' \<noteq> k) out, s2) \<and>
           Len s = int (length out) \<and> Len s' = Len s - 1 \<and>
           mapper s' = (mapper s)(k := None) \<and> Get k s' = Some (None, False) \<and>
           (map fst out = [''a'', ''b'', ''c''] \<and> k = ''b'' \<longrightarrow>
              map fst (filter (\<lambda>(k', v'). k' \<noteq> k) out) = [''a'', ''c''] \<and> Len s' = 2)"
proof -
  define xs where "xs = spec_run ops []"
  obtain as where A: "repr s as xs" using run_repr[OF assms(1)] by (auto simp: xs_def)
  have out: "out = xs" and F: "length xs \<le> fuel"
    using iterate_repr_iff[OF A assms(2)] by auto
  have "mapper s k \<noteq> None" using repr_mapper_None[OF A, of k] assms(3) out by blast
  then obtain a where a: "mapper s k = Some a" by auto
  define ys where "ys = filter (\<lambda>(k', v'). k' \<noteq> k) xs"
  from Delete_present[OF A a] obtain s' where s': "Delete k s = Some s'"
    and A': "repr s' (remove1 a as) ys" and m: "mapper s' = (mapper s)(k := None)"
    by (auto simp: ys_def)
  have l: "Len s = int (length xs)" by (rule repr_Len[OF A])
  have "length xs = Suc (length ys)"
  proof -
    have "a \<in> set as" using repr_mapper_entry[OF A a] by simp
    then have "length as = Suc (length (remove1 a as))"
      by (simp add: length_remove1) (cases as, auto)
    then show ?thesis using repr_length[OF A] repr_length[OF A'] by simp
  qed
  then have l': "Len s' = Len s - 1" using repr_Len[OF A'] l by simp
  have "length (remove1 a as) \<le> length as" by (simp add: length_remove1)
  then have "length (remove1 a as) \<le> fuel" using F repr_length[OF A] by simp
  from iterate_repr[OF A' this] obtain s2 where it: "iterate fuel s' = Some (ys, s2)" by blast
  have g: "Get k s' = Some (None, False)" by (simp add: Get_def m)
  have ex: "map fst ys = [''a'', ''c''] \<and> Len s' = 2" if "map fst xs = [''a'', ''b'', ''c'']" "k = ''b''"
  proof -
    have "map fst ys = filter (\<lambda>k'. k' \<noteq> k) (map fst xs)"
      by (simp add: ys_def filter_map comp_def split_def)
    then have "map fst ys = [''a'', ''c'']" unfolding that by simp
    moreover have "length xs = 3" using arg_cong[OF that(1), of length] by simp
    ultimately show ?thesis using l l' by simp
  qed
  have it': "iterate fuel s' = Some (filter (\<lambda>(k', v'). k' \<noteq> k) out, s2)"
    using it by (simp add: ys_def out)
  have l0: "Len s = int (length out)" using l by (simp add: out)
  have ex': "map fst out = [''a'', ''b'', ''c''] \<and> k = ''b'' \<longrightarrow>
      map fst (filter (\<lambda>(k', v'). k' \<noteq> k) out) = [''a'', ''c''] \<and> Len s' = 2"
  proof (intro impI, elim conjE)
    assume "map fst out = [''a'', ''b'', ''c'']" "k = ''b''"
    then show "map fst (filter (\<lambda>(k', v'). k' \<noteq> k) out) = [''a'', ''c''] \<and> Len s' = 2"
      using ex unfolding ys_def out by simp
  qed
  show ?thesis
    by (intro exI[of _ s'] exI[of _ s2] conjI s' it' l0 l' m g ex')
qed

theorem C5_Delete_present_witness:
  "\<exists>s s1 s' s2.
     run [OpSet ''a'' (Some (1::nat)), OpSet ''b'' (Some 2), OpSet ''c'' (Some 3)] New = Some s \<and>
     iterate 3 s = Some ([(''a'', Some 1), (''b'', Some 2), (''c'', Some 3)], s1) \<and>
     Delete ''b'' s = Some s' \<and>
     iterate 3 s' = Some ([(''a'', Some 1), (''c'', Some 3)], s2) \<and> Len s' = 2"
proof -
  define ops where "ops = [OpSet ''a'' (Some (1::nat)), OpSet ''b'' (Some 2), OpSet ''c'' (Some 3)]"
  obtain s where s: "run ops New = Some s"
    using run_total[OF repr_New, of ops] by (auto simp: ops_def)
  obtain as where A: "repr s as (spec_run ops [])" using run_repr[OF s] by blast
  have xs: "spec_run ops [] = [(''a'', Some 1), (''b'', Some 2), (''c'', Some 3)]"
    by (simp add: ops_def spec_Set_def)
  obtain s1 where it: "iterate 3 s = Some ([(''a'', Some 1), (''b'', Some 2), (''c'', Some 3)], s1)"
    using iterate_repr[OF A, of 3] repr_length[OF A] by (auto simp: xs)
  have k: "''b'' \<in> set (map fst [(''a'', Some (1::nat)), (''b'', Some 2), (''c'', Some 3)])" by simp
  from C5_Delete_present[OF s it k] obtain s' s2 where
    "Delete ''b'' s = Some s'"
    "iterate 3 s' = Some (filter (\<lambda>(k', v'). k' \<noteq> ''b'')
        [(''a'', Some (1::nat)), (''b'', Some 2), (''c'', Some 3)], s2)"
    "Len s = int (length [(''a'', Some (1::nat)), (''b'', Some 2), (''c'', Some 3)])"
    "Len s' = Len s - 1"
    by blast
  then show ?thesis
    using s it unfolding ops_def
    by (intro exI[of _ s] exI[of _ s1] exI[of _ s'] exI[of _ s2]) simp
qed

text \<open>
  Claim C6: for every map and every key that was never inserted, or has been deleted,
  \<open>Get\<close> returns the nil value and \<open>False\<close>; it returns this pair as a normal
  result (\<open>Some\<close>), it does not panic.
\<close>

theorem C6_Get_absent:
  assumes "run ops New = Some s" and "k \<notin> present_keys ops"
  shows "Get k s = Some (None, False)"
proof -
  obtain as where A: "repr s as (spec_run ops [])" using run_repr[OF assms(1)] by blast
  have "k \<notin> set (map fst (spec_run ops []))" using assms(2) unfolding present_keys_spec .
  then have "mapper s k = None" using repr_mapper_None[OF A, of k] by blast
  then show ?thesis by (simp add: Get_def)
qed

theorem C6_Get_absent_witness:
  "run [OpSet ''a'' (Some (1::nat)), OpSet ''b'' (Some 2), OpDelete ''b''] New \<noteq> None \<and>
   Option.bind (run [OpSet ''a'' (Some (1::nat)), OpSet ''b'' (Some 2), OpDelete ''b''] New)
     (Get ''b'') = Some (None, False) \<and>
   Option.bind (run [OpSet ''a'' (Some (1::nat)), OpSet ''b'' (Some 2), OpDelete ''b''] New)
     (Get ''zz'') = Some (None, False)"
proof -
  define ops where "ops = [OpSet ''a'' (Some (1::nat)), OpSet ''b'' (Some 2), OpDelete ''b'']"
  obtain s where s: "run ops New = Some s"
    using run_total[OF repr_New, of ops] by (auto simp: ops_def)
  have "''b'' \<notin> present_keys ops" "''zz'' \<notin> present_keys ops"
    by (simp_all add: ops_def present_keys_def)
  then have "Get ''b'' s = Some (None, False)" "Get ''zz'' s = Some (None, False)"
    using C6_Get_absent[OF s] by blast+
  then show ?thesis using s by (simp add: ops_def)
qed

text \<open>
  Claim C7: for every map and every absent key \<open>k\<close>, \<open>Delete k\<close> is a no-op: it returns
  normally and the state after it is the state before it, so \<open>Len\<close>, \<open>Get\<close> and
  iteration behave as before.
\<close>

theorem C7_Delete_absent_noop:
  assumes "run ops New = Some s" and "k \<notin> present_keys ops"
  shows "Delete k s = Some s"
proof -
  obtain as where A: "repr s as (spec_run ops [])" using run_repr[OF assms(1)] by blast
  have "k \<notin> set (map fst (spec_run ops []))" using assms(2) unfolding present_keys_spec .
  then have "mapper s k = None" using repr_mapper_None[OF A, of k] by blast
  then show ?thesis by (rule Delete_absent)
qed

theorem C7_Delete_absent_noop_witness:
  "run [OpSet ''a'' (Some (1::nat)), OpSet ''b'' (Some 2), OpDelete ''b''] New \<noteq> None \<and>
   Option.bind (run [OpSet ''a'' (Some (1::nat)), OpSet ''b'' (Some 2), OpDelete ''b''] New)
     (Delete ''b'') =
   run [OpSet ''a'' (Some (1::nat)), OpSet ''b'' (Some 2), OpDelete ''b''] New"
proof -
  define ops where "ops = [OpSet ''a'' (Some (1::nat)), OpSet ''b'' (Some 2), OpDelete ''b'']"
  obtain s where s: "run ops New = Some s"
    using run_total[OF repr_New, of ops] by (auto simp: ops_def)
  have "''b'' \<notin> present_keys ops"
    by (simp add: ops_def present_keys_def)
  then have "Delete ''b'' s = Some s"
    using C7_Delete_absent_noop[OF s] by blast
  then show ?thesis using s by (simp add: ops_def)
qed

text \<open>
  Claim C9: a cursor \<open>e\<close> returned by \<open>First\<close> or \<open>Next\<close> holds an \<^verbatim>\<open>ElemVal\<close> of its own with
  the key and value its entry had at that moment. After any later calls on the map, a
  \<open>Set\<close> (of any key and value) leaves the cursor's \<^verbatim>\<open>ElemVal\<close> as it was, and an assignment
  to the cursor's \<^verbatim>\<open>Value\<close> field changes no result of \<open>Get\<close>.
\<close>

theorem C9_cursor_holds_copy:
  assumes "run ops New = Some s"
    and "First s = Some (Some e, s1) \<or> Next e0 s = Some (Some e, s1)"
    and "run ops' s1 = Some s2"
  shows "(\<exists>a ev. elem e = Some a \<and> entry s a = Some ev \<and> Get (Key ev) s = Some (Value ev, True) \<and>
            elemvals s1 (ElemValp e) = Some ev) \<and>
         (\<exists>s3. Set k v' s2 = Some s3 \<and> elemvals s3 (ElemValp e) = elemvals s1 (ElemValp e)) \<and>
         (\<exists>s3. assign_Value e x s2 = Some s3 \<and> (\<forall>k'. Get k' s3 = Get k' s2))"
proof -
  define xs where "xs = spec_run ops []"
  obtain as where A: "repr s as xs" using run_repr[OF assms(1)] by (auto simp: xs_def)
  have len: "length xs = length as" by (rule repr_length[OF A])
  have "\<exists>i. i < length as \<and> e = \<lparr>elem = Some (as ! i), ElemValp = brk s\<rparr> \<and>
          s1 = snd (new_ElemVal \<lparr>Key = fst (xs ! i), Value = snd (xs ! i)\<rparr> s)"
    using assms(2)
  proof
    assume "First s = Some (Some e, s1)"
    then show ?thesis using First_repr[OF A] by (cases "as = []") auto
  next
    assume "Next e0 s = Some (Some e, s1)"
    from Next_Some_live[OF A this] show ?thesis by blast
  qed
  then obtain i where i: "i < length as" and e: "e = \<lparr>elem = Some (as ! i), ElemValp = brk s\<rparr>"
    and s1: "s1 = snd (new_ElemVal \<lparr>Key = fst (xs ! i), Value = snd (xs ! i)\<rparr> s)" by blast
  define ev :: "'a ElemVal" where "ev = \<lparr>Key = fst (xs ! i), Value = snd (xs ! i)\<rparr>"
  define q where "q = ElemValp e"
  have ent: "entry s (as ! i) = Some ev" unfolding ev_def by (rule repr_entry[OF A i])
  have "(Key ev, Value ev) \<in> set xs" using i len by (simp add: ev_def)
  then have g: "Get (Key ev) s = Some (Value ev, True)" by (rule repr_Get_present[OF A])
  have v1: "elemvals s1 q = Some ev" by (simp add: q_def e s1 ev_def new_ElemVal_frame)
  have 1: "\<exists>a ev. elem e = Some a \<and> entry s a = Some ev \<and> Get (Key ev) s = Some (Value ev, True) \<and>
            elemvals s1 (ElemValp e) = Some ev"
    using ent g v1 by (intro exI[of _ "as ! i"] exI[of _ ev]) (simp add: e q_def)
  have A1: "repr s1 as xs" unfolding s1 by (rule repr_new_ElemVal[OF A])
  have O1: "off_list s1 as q" unfolding s1 q_def e using fresh_off_list[OF A] by simp
  from run_step[OF A1 assms(3)] O1 obtain as2 where A2: "repr s2 as2 (spec_run ops' xs)"
    and O2: "off_list s2 as2 q" and v2: "elemvals s2 q = elemvals s1 q" by blast
  obtain s3 where s3: "exec (OpSet k v') s2 = Some s3"
    using exec_total[OF A2, of "OpSet k v'"] by auto
  from exec_step[OF A2 s3] O2 have "elemvals s3 q = elemvals s2 q" by blast
  then have 2: "\<exists>s3. Set k v' s2 = Some s3 \<and> elemvals s3 (ElemValp e) = elemvals s1 (ElemValp e)"
    using s3 v2 by (simp add: q_def)
  have "assign_Value e x s2 = Some (s2\<lparr>elemvals := (elemvals s2)(q \<mapsto> ev\<lparr>Value := x\<rparr>)\<rparr>)"
    using v1 v2 by (simp add: assign_Value_def q_def[symmetric])
  then have 3: "\<exists>s3. assign_Value e x s2 = Some s3 \<and> (\<forall>k'. Get k' s3 = Get k' s2)"
    using Get_off_list[OF A2 O2] by simp
  show ?thesis using 1 2 3 by (intro conjI)
qed

theorem C9_cursor_holds_copy_witness:
  "\<exists>s e s1 s3 s4.
     run [OpSet ''a'' (Some (1::nat)), OpSet ''b'' (Some 2)] New = Some s \<and>
     First s = Some (Some e, s1) \<and>
     elemvals s1 (ElemValp e) = Some \<lparr>Key = ''a'', Value = Some 1\<rparr> \<and>
     Set ''a'' (Some 9) s1 = Some s3 \<and>
     elemvals s3 (ElemValp e) = Some \<lparr>Key = ''a'', Value = Some 1\<rparr> \<and>
     Get ''a'' s3 = Some (Some 9, True) \<and>
     assign_Value e (Some 7) s1 = Some s4 \<and> Get ''a'' s4 = Some (Some 1, True)"
proof -
  define ops where "ops = [OpSet ''a'' (Some (1::nat)), OpSet ''b'' (Some 2)]"
  obtain s where s: "run ops New = Some s"
    using run_total[OF repr_New, of ops] by (auto simp: ops_def)
  obtain as where A: "repr s as (spec_run ops [])" using run_repr[OF s] by blast
  have xs: "spec_run ops [] = [(''a'', Some 1), (''b'', Some 2)]"
    by (simp add: ops_def spec_Set_def)
  have len: "length as = 2" using repr_length[OF A] by (simp add: xs)
  obtain e s1 where f: "First s = Some (Some e, s1)"
    and v: "elemvals s1 (ElemValp e) = Some \<lparr>Key = ''a'', Value = Some 1\<rparr>"
    and A1: "repr s1 as (spec_run ops [])"
    using cursor_at_repr[OF A, of 0] len by (auto simp: xs)
  have r: "run [] s1 = Some s1" by simp
  from C9_cursor_holds_copy[OF s disjI1[OF f] r, of "''a''" "Some 9" "Some 7"]
  obtain s3 s4 where 3: "Set ''a'' (Some 9) s1 = Some s3"
    "elemvals s3 (ElemValp e) = elemvals s1 (ElemValp e)"
    and 4: "assign_Value e (Some 7) s1 = Some s4" "\<forall>k'. Get k' s4 = Get k' s1"
    by blast
  have g1: "Get ''a'' s1 = Some (Some 1, True)"
    using repr_Get_present[OF A1, of "''a''" "Some 1"] by (simp add: xs)
  have m: "mapper s1 ''a'' \<noteq> None" using Get_True_mapper[OF g1] .
  then obtain a where a: "mapper s1 ''a'' = Some a" by auto
  from Set_present[OF A1 a, of "Some 9"] 3(1)
  have "repr s3 as (map (\<lambda>(k', v'). if k' = ''a'' then (k', Some 9) else (k', v')) (spec_run ops []))"
    by auto
  from repr_Get_present[OF this, of "''a''" "Some 9"]
  have g3: "Get ''a'' s3 = Some (Some 9, True)" by (simp add: xs)
  show ?thesis
    using s f v 3 4 g1 g3 unfolding ops_def
    by (intro exI[of _ s] exI[of _ e] exI[of _ s1] exI[of _ s3] exI[of _ s4]) simp
qed

text \<open>
  Claim C10, as stated, fails for a cursor whose entry has been deleted: on the map with
  keys a, b, c the first cursor (key a) is taken, a is deleted, and \<open>Next\<close> on the cursor
  returns \<^verbatim>\<open>nil\<close>, although the cursor's entry is not the last entry of the sequence:
  it was the first of three, and the sequence is now b, c.
\<close>

theorem C10_stale_cursor_counterexample:
  "delete_then_next = Some (''a'', None, [(''b'', Some 2), (''c'', Some 3)], 2)"
  by (simp add: delete_then_next_def New_def Set_def Delete_def list_Remove_def list_remove_def
      list_PushBack_def list_lazyInit_def list_insertValue_def list_insert_def load_def store_def
      iterate_def First_def Next_def list_Front_def list_Next_def mk_Element_def deref_ElemVal_def
      new_ElemVal_def Len_def list_Len_def numeral_2_eq_2)

text \<open>
  Claim C10, amended: \<open>First\<close> returns \<^verbatim>\<open>nil\<close> exactly when the map is empty
  (\<open>Len\<close> is 0); \<open>Next\<close> on a cursor returns \<^verbatim>\<open>nil\<close> exactly when the cursor's list
  element is the last entry of the sequence or is no longer in the sequence (its key
  was deleted after the cursor was obtained); neither call panics. Hence a fresh
  traversal from \<open>First\<close> yields exactly \<open>Len\<close> entries and then ends: it returns with
  fuel \<open>Len\<close> and runs out of any smaller fuel. Here \<open>as\<close> is the sequence of list
  elements, the \<open>i\<close>-th of which is the element of the cursor after \<open>i\<close> steps.
\<close>

theorem C10_First_Next_nil:
  assumes "run ops New = Some s"
  shows "\<exists>as. linked s as \<and> Len s = int (length as) \<and>
           (\<forall>i < length as. \<exists>e s1. cursor_at i s = Some (Some e, s1) \<and> elem e = Some (as ! i)) \<and>
           First s \<noteq> None \<and> ((\<exists>s1. First s = Some (None, s1)) \<longleftrightarrow> Len s = 0) \<and>
           (\<forall>e a. elem e = Some a \<and> elements s a \<noteq> None \<longrightarrow>
              Next e s \<noteq> None \<and>
              ((\<exists>s1. Next e s = Some (None, s1)) \<longleftrightarrow> (a \<notin> set as \<or> a = last as))) \<and>
           (\<exists>out s'. iterate (nat (Len s)) s = Some (out, s') \<and> int (length out) = Len s) \<and>
           (\<forall>fuel. int fuel < Len s \<longrightarrow> iterate fuel s = None)"
proof -
  define xs where "xs = spec_run ops []"
  obtain as where A: "repr s as xs" using run_repr[OF assms(1)] by (auto simp: xs_def)
  have len: "length xs = length as" by (rule repr_length[OF A])
  have L: "linked s as" using A by (simp add: repr_def)
  have d: "distinct as" using L by (simp add: linked_def)
  have l: "Len s = int (length as)" using repr_Len[OF A] len by simp
  have 1: "\<forall>i < length as. \<exists>e s1. cursor_at i s = Some (Some e, s1) \<and> elem e = Some (as ! i)"
  proof (intro allI impI)
    fix i assume "i < length as"
    then show "\<exists>e s1. cursor_at i s = Some (Some e, s1) \<and> elem e = Some (as ! i)"
      using cursor_at_repr[OF A, of i] by auto
  qed
  have 2: "First s \<noteq> None" using First_repr[OF A] by simp
  have 3: "(\<exists>s1. First s = Some (None, s1)) \<longleftrightarrow> Len s = 0"
    using First_repr[OF A] l by (cases "as = []") auto
  have 4: "Next e s \<noteq> None \<and> ((\<exists>s1. Next e s = Some (None, s1)) \<longleftrightarrow> (a \<notin> set as \<or> a = last as))"
    if e: "elem e = Some a" and n: "elements s a \<noteq> None" for e a
  proof (cases "a \<in> set as")
    case False
    then show ?thesis using Next_dead[OF A e n] by simp
  next
    case True
    then obtain i where i: "i < length as" "as ! i = a" by (auto simp: in_set_conv_nth)
    have "a = last as \<longleftrightarrow> Suc i = length as" using last_nth_distinct[OF d i(1)] i(2) by simp
    then show ?thesis using Next_repr[OF A i(1), of e] e i True by auto
  qed
  have "length as \<le> nat (Len s)" using l by simp
  from iterate_repr[OF A this] len l
  have 5: "\<exists>out s'. iterate (nat (Len s)) s = Some (out, s') \<and> int (length out) = Len s" by auto
  have 6: "\<forall>fuel. int fuel < Len s \<longrightarrow> iterate fuel s = None"
    using iterate_short[OF A] l by auto
  show ?thesis
    using L l 1 2 3 4 5 6 by (intro exI[of _ as]) blast
qed

theorem C10_First_Next_nil_witness:
  "\<exists>s e s1 e' s2.
     run [OpSet ''a'' (Some (1::nat)), OpSet ''b'' (Some 2)] New = Some s \<and> Len s = 2 \<and>
     cursor_at 0 s = Some (Some e, s1) \<and> cursor_at 1 s = Some (Some e', s2) \<and>
     Next e s \<noteq> None \<and> Next e s \<noteq> Some (None, s) \<and> Next e' s = Some (None, s) \<and>
     iterate 2 s \<noteq> None \<and> iterate 1 s = None"
proof -
  define ops where "ops = [OpSet ''a'' (Some (1::nat)), OpSet ''b'' (Some 2)]"
  obtain s where s: "run ops New = Some s"
    using run_total[OF repr_New, of ops] by (auto simp: ops_def)
  from C10_First_Next_nil[OF s] obtain as where L: "linked s as" and l: "Len s = int (length as)"
    and c: "\<forall>i < length as. \<exists>e s1. cursor_at i s = Some (Some e, s1) \<and> elem e = Some (as ! i)"
    and n: "\<forall>e a. elem e = Some a \<and> elements s a \<noteq> None \<longrightarrow>
              Next e s \<noteq> None \<and>
              ((\<exists>s1. Next e s = Some (None, s1)) \<longleftrightarrow> (a \<notin> set as \<or> a = last as))"
    and it: "\<exists>out s'. iterate (nat (Len s)) s = Some (out, s') \<and> int (length out) = Len s"
    and sh: "\<forall>fuel. int fuel < Len s \<longrightarrow> iterate fuel s = None"
    by blast
  obtain bs where B: "repr s bs (spec_run ops [])" using run_repr[OF s] by blast
  have "spec_run ops [] = [(''a'', Some 1), (''b'', Some 2)]" by (simp add: ops_def spec_Set_def)
  then have l2: "Len s = 2" using repr_Len[OF B] by simp
  then have len: "length as = 2" using l by simp
  obtain e s1 where e: "cursor_at 0 s = Some (Some e, s1)" "elem e = Some (as ! 0)"
    using c len by (metis zero_less_numeral)
  obtain e' s2 where e': "cursor_at 1 s = Some (Some e', s2)" "elem e' = Some (as ! 1)"
    using c len by (metis one_less_numeral_iff semiring_norm(76))
  have d: "distinct as" using L by (simp add: linked_def)
  have el: "elements s (as ! 0) \<noteq> None" "elements s (as ! 1) \<noteq> None"
    using linked_elements[OF L, of "as ! 0"] linked_elements[OF L, of "as ! 1"] len by auto
  have la: "as ! 1 = last as" "as ! 0 \<noteq> last as" "as ! 0 \<in> set as"
    using last_nth_distinct[OF d, of 1] last_nth_distinct[OF d, of 0] len by auto
  have n0: "Next e s \<noteq> None" "\<not> (\<exists>s1. Next e s = Some (None, s1))"
    using n e(2) el(1) la by blast+
  have "\<exists>s1. Next e' s = Some (None, s1)" using n e'(2) el(2) la by blast
  then have n1: "Next e' s = Some (None, s)"
    by (auto simp: Next_def mk_Element_def new_ElemVal_def split: Option.bind_splits option.splits)
  have i2: "iterate 2 s \<noteq> None" using it l2 by auto
  have i1: "iterate 1 s = None" using sh l2 by (metis int_ops(2) one_less_numeral_iff semiring_norm(76))
  show ?thesis
    using s l2 e(1) e'(1) n0 n1 i2 i1 unfolding ops_def
    by (intro exI[of _ s] exI[of _ e] exI[of _ s1] exI[of _ e'] exI[of _ s2]) auto
qed

end
